theory Spec2Isabelle
  imports Complex_Main "HOL-Library.Word"
begin

section \<open>The relational store of \<^verbatim>\<open>database.cpp\<close>\<close>

text \<open>
  The five tables created by \<^verbatim>\<open>INIT_DB_SQL\<close>, one record per row.  A table is the list of
  its rows in insertion order.  \<^verbatim>\<open>chunks.id\<close> is \<^verbatim>\<open>autoincrement\<close>: the store keeps the
  largest id ever handed out (\<open>chunks_seq\<close>, SQLite's \<^verbatim>\<open>sqlite_sequence\<close>), so a chunk id is
  never reused.
\<close>

record chunk_row =
  c_id :: int
  c_document_id :: int
  c_chunk_text :: string
  c_file :: string
  c_title :: string
  c_author :: string
  c_subject :: string
  c_keywords :: string
  c_page :: int
  c_line_from :: int
  c_line_to :: int
  c_words :: int
  c_tokens :: int
  c_has_embedding :: bool

record collection_row =
  co_id :: int
  co_name :: string
  co_last_update_time :: "int option"
  co_embedding_model :: "string option"

record folder_row =
  f_id :: int
  f_folder_path :: string

record document_row =
  d_id :: int
  d_folder_id :: int
  d_document_time :: int
  d_document_path :: string

record tables =
  tb_chunks :: "chunk_row list"
  tb_chunks_seq :: int
  tb_collections :: "collection_row list"
  tb_folders :: "folder_row list"
  tb_collection_items :: "(int \<times> int) list"
  tb_documents :: "document_row list"

text \<open>The statements of \<^verbatim>\<open>database.cpp\<close> that modify a table, with their bound values.\<close>

datatype sql_write =
    INSERT_CHUNK_SQL int string string string string string string int int int int
  | DELETE_CHUNKS_SQL int
  | UPDATE_CHUNK_HAS_EMBEDDING_SQL int
  | INSERT_DOCUMENTS_SQL int int string
  | UPDATE_DOCUMENT_TIME_SQL int int
  | DELETE_DOCUMENTS_SQL int
  | DELETE_FOLDERS_SQL int
  | DELETE_COLLECTION_FOLDER_SQL string int
  | PRUNE_COLLECTIONS_SQL

text \<open>
  The rowid SQLite gives a new row of a table declared \<^verbatim>\<open>integer primary key\<close> (without
  \<^verbatim>\<open>autoincrement\<close>): one more than the largest rowid present.
\<close>

definition next_rowid :: "int list \<Rightarrow> int" where
  "next_rowid ids = (if ids = [] then 1 else fold max ids (hd ids) + 1)"

text \<open>
  \<^verbatim>\<open>q.exec()\<close> of a prepared modifying statement.  Only the \<^verbatim>\<open>unique\<close> constraint on
  \<^verbatim>\<open>documents.document_path\<close> can make one of them fail; failures of the storage medium are
  not part of the model.
\<close>

fun write_ok :: "sql_write \<Rightarrow> tables \<Rightarrow> bool" where
  "write_ok (INSERT_DOCUMENTS_SQL folder_id document_time document_path) t =
     (document_path \<notin> set (map d_document_path (tb_documents t)))"
| "write_ok _ t = True"

fun apply_write :: "sql_write \<Rightarrow> tables \<Rightarrow> tables" where
  "apply_write (INSERT_CHUNK_SQL document_id chunk_text file title author subject keywords
       page line_from line_to wordcount) t =
     t\<lparr>tb_chunks := tb_chunks t @
          [\<lparr>c_id = tb_chunks_seq t + 1, c_document_id = document_id, c_chunk_text = chunk_text,
            c_file = file, c_title = title, c_author = author, c_subject = subject,
            c_keywords = keywords, c_page = page, c_line_from = line_from,
            c_line_to = line_to, c_words = wordcount, c_tokens = 0,
            c_has_embedding = False\<rparr>],
       tb_chunks_seq := tb_chunks_seq t + 1\<rparr>"
| "apply_write (DELETE_CHUNKS_SQL document_id) t =
     t\<lparr>tb_chunks := filter (\<lambda>c. c_document_id c \<noteq> document_id) (tb_chunks t)\<rparr>"
| "apply_write (UPDATE_CHUNK_HAS_EMBEDDING_SQL chunk_id) t =
     t\<lparr>tb_chunks := map (\<lambda>c. if c_id c = chunk_id then c\<lparr>c_has_embedding := True\<rparr> else c)
                      (tb_chunks t)\<rparr>"
| "apply_write (INSERT_DOCUMENTS_SQL folder_id document_time document_path) t =
     (if document_path \<in> set (map d_document_path (tb_documents t)) then t
      else t\<lparr>tb_documents := tb_documents t @
                 [\<lparr>d_id = next_rowid (map d_id (tb_documents t)), d_folder_id = folder_id,
                   d_document_time = document_time, d_document_path = document_path\<rparr>]\<rparr>)"
| "apply_write (UPDATE_DOCUMENT_TIME_SQL document_time document_id) t =
     t\<lparr>tb_documents := map (\<lambda>d. if d_id d = document_id
                                then d\<lparr>d_document_time := document_time\<rparr> else d)
                         (tb_documents t)\<rparr>"
| "apply_write (DELETE_DOCUMENTS_SQL document_id) t =
     t\<lparr>tb_documents := filter (\<lambda>d. d_id d \<noteq> document_id) (tb_documents t)\<rparr>"
| "apply_write (DELETE_FOLDERS_SQL folder_id) t =
     t\<lparr>tb_folders := filter (\<lambda>f. f_id f \<noteq> folder_id) (tb_folders t)\<rparr>"
| "apply_write (DELETE_COLLECTION_FOLDER_SQL name folder_id) t =
     (case filter (\<lambda>c. co_name c = name) (tb_collections t) of
        [] \<Rightarrow> t
      | c # _ \<Rightarrow>
          t\<lparr>tb_collection_items :=
               filter (\<lambda>ci. \<not> (fst ci = co_id c \<and> snd ci = folder_id)) (tb_collection_items t)\<rparr>)"
| "apply_write PRUNE_COLLECTIONS_SQL t =
     t\<lparr>tb_collections := filter (\<lambda>c. co_id c \<in> set (map fst (tb_collection_items t)))
                             (tb_collections t)\<rparr>"

section \<open>The vector index and the embedding backend\<close>

text \<open>
  \<^verbatim>\<open>struct EmbeddingChunk\<close> and \<^verbatim>\<open>struct EmbeddingResult\<close> of \<^verbatim>\<open>embllm.h\<close>.  A
  \<^verbatim>\<open>std::vector<float>\<close> is a list of numbers; no arithmetic is ever done on it here.
\<close>

record EmbeddingChunk =
  ec_folder_id :: int
  ec_chunk_id :: int
  ec_chunk :: string

record EmbeddingResult =
  er_folder_id :: int
  er_chunk_id :: int
  er_embedding :: "real list"

text \<open>
  Modelled from the spec: class \<^verbatim>\<open>Embeddings\<close> (\<^verbatim>\<open>embeddings.h\<close>), the vector index, whose
  source is not part of the repository snapshot.  The spec describes it as a store of float
  vectors of one fixed dimensionality keyed by chunk id, with add, remove, whole-index
  persistence and reload.  \<open>e_entries\<close> is the index in memory, \<open>e_file\<close> the persisted file
  (\<open>None\<close> while no file has been written).
\<close>

record Embeddings =
  e_dimension :: nat
  e_loaded :: bool
  e_entries :: "(int \<times> real list) list"
  e_file :: "(int \<times> real list) list option"

definition Embeddings_add_ok :: "Embeddings \<Rightarrow> real list \<Rightarrow> bool" where
  "Embeddings_add_ok e v = (length v = e_dimension e)"

section \<open>The state of the \<^verbatim>\<open>Database\<close> object and its primitive effects\<close>

text \<open>
  \<^verbatim>\<open>DocumentInfo\<close>: one unit of resumable scan work.  \<open>di_doc\<close> is the path the
  \<^verbatim>\<open>QFileInfo\<close> refers to.
\<close>

record DocumentInfo =
  di_folder :: int
  di_doc :: string
  di_currentPage :: int
  di_currentPosition :: nat
  di_currentlyProcessing :: bool

text \<open>
  Every effect on the relational store, on the vector index and on the embedding backend is
  one \<open>event\<close>; the state keeps the list of events in the order in which they happened.
\<close>

datatype event =
    TxBegin
  | TxCommit
  | TxRollback
  | DbWrite sql_write
  | IndexAdd int "real list"
  | IndexRemove int
  | IndexSave
  | GenerateAsyncEmbeddings "EmbeddingChunk list"

text \<open>
  \<open>m_tx\<close> is the snapshot of the tables taken when the open transaction began (\<open>None\<close> when
  no transaction is open); \<open>m_docsToScan\<close> is the \<^verbatim>\<open>QMap<int, QQueue<DocumentInfo>>\<close>, kept
  in ascending key order.  The \<^verbatim>\<open>CollectionItem\<close> mirror \<^verbatim>\<open>m_collectionMap\<close> and the
  signals to the user interface carry progress counters only and are left out.
\<close>

record sys =
  m_db :: tables
  m_tx :: "tables option"
  m_chunkSize :: int
  m_chunkList :: "EmbeddingChunk list"
  m_docsToScan :: "(int \<times> DocumentInfo list) list"
  m_embeddings :: Embeddings
  m_log :: "event list"

definition s_batchSize :: int where
  "s_batchSize = 100"

fun effect :: "event \<Rightarrow> sys \<Rightarrow> sys" where
  "effect TxBegin st = (case m_tx st of None \<Rightarrow> st\<lparr>m_tx := Some (m_db st)\<rparr> | Some _ \<Rightarrow> st)"
| "effect TxCommit st = st\<lparr>m_tx := None\<rparr>"
| "effect TxRollback st =
     (case m_tx st of None \<Rightarrow> st | Some t \<Rightarrow> st\<lparr>m_db := t, m_tx := None\<rparr>)"
| "effect (DbWrite w) st = st\<lparr>m_db := apply_write w (m_db st)\<rparr>"
| "effect (IndexAdd label v) st =
     st\<lparr>m_embeddings := (m_embeddings st)
          \<lparr>e_entries := filter (\<lambda>p. fst p \<noteq> label) (e_entries (m_embeddings st)) @ [(label, v)]\<rparr>\<rparr>"
| "effect (IndexRemove label) st =
     st\<lparr>m_embeddings := (m_embeddings st)
          \<lparr>e_entries := filter (\<lambda>p. fst p \<noteq> label) (e_entries (m_embeddings st))\<rparr>\<rparr>"
| "effect IndexSave st =
     st\<lparr>m_embeddings := (m_embeddings st)\<lparr>e_file := Some (e_entries (m_embeddings st))\<rparr>\<rparr>"
| "effect (GenerateAsyncEmbeddings batch) st = st"

definition exec :: "event \<Rightarrow> sys \<Rightarrow> sys" where
  "exec e st = (effect e st)\<lparr>m_log := m_log st @ [e]\<rparr>"

text \<open>The events a later state has added to the log of an earlier one.\<close>

definition events_since :: "sys \<Rightarrow> sys \<Rightarrow> event list" where
  "events_since st st' = drop (length (m_log st)) (m_log st')"

definition transaction :: "sys \<Rightarrow> sys" where
  "transaction st = exec TxBegin st"

definition commit :: "sys \<Rightarrow> sys" where
  "commit st = exec TxCommit st"

definition rollback :: "sys \<Rightarrow> sys" where
  "rollback st = exec TxRollback st"

text \<open>
  \<^verbatim>\<open>addChunk\<close>: the id comes back through \<^verbatim>\<open>returning id\<close> and is narrowed to the
  32-bit \<^verbatim>\<open>int\<close> of \<^verbatim>\<open>QVariant::toInt\<close>; on failure the caller's \<^verbatim>\<open>chunk_id\<close> keeps its
  initial value \<open>0\<close>.
\<close>

definition addChunk ::
  "int \<Rightarrow> string \<Rightarrow> string \<Rightarrow> string \<Rightarrow> string \<Rightarrow> string \<Rightarrow> string \<Rightarrow> int \<Rightarrow> int \<Rightarrow> int \<Rightarrow> int
     \<Rightarrow> sys \<Rightarrow> bool \<times> int \<times> sys" where
  "addChunk document_id chunk_text file title author subject keywords page lfrom lto wordcount st =
     (let w = INSERT_CHUNK_SQL document_id chunk_text file title author subject keywords
                page lfrom lto wordcount
      in if write_ok w (m_db st)
         then (let st' = exec (DbWrite w) st
               in (True, sint (word_of_int (tb_chunks_seq (m_db st')) :: 32 word), st'))
         else (False, 0, st))"

definition sendChunkList :: "sys \<Rightarrow> sys" where
  "sendChunkList st = (exec (GenerateAsyncEmbeddings (m_chunkList st)) st)\<lparr>m_chunkList := []\<rparr>"

definition appendChunk :: "EmbeddingChunk \<Rightarrow> sys \<Rightarrow> sys" where
  "appendChunk chunk st =
     (let st1 = st\<lparr>m_chunkList := m_chunkList st @ [chunk]\<rparr>
      in if int (length (m_chunkList st1)) \<ge> s_batchSize then sendChunkList st1 else st1)"

section \<open>The text stream\<close>

text \<open>
  \<^verbatim>\<open>QTextStream\<close> belongs to the Qt library.  The model keeps what \<^verbatim>\<open>chunkStream\<close> observes of
  it: the characters that can still be delivered (\<open>ts_buf\<close>), the position of the next one
  (\<open>ts_pos\<close>, what \<^verbatim>\<open>stream.pos()\<close> returns), whether a read beyond the last deliverable
  character fails on the device instead of meeting the end of the data (\<open>ts_devFail\<close>), and
  whether the status is different from \<^verbatim>\<open>Ok\<close> (\<open>ts_status\<close>).  A character is one byte
  (\<^typ>\<open>char\<close>), as in a single-byte encoding, so stream positions are byte offsets.
\<close>

record QTextStream =
  ts_buf :: string
  ts_pos :: nat
  ts_devFail :: bool
  ts_status :: bool

text \<open>\<^verbatim>\<open>QChar::isSpace\<close> on the code points below 256.\<close>

definition isSpace :: "char \<Rightarrow> bool" where
  "isSpace c = (let u = (of_char c :: nat)
                in u = 0x20 \<or> (0x09 \<le> u \<and> u \<le> 0x0D) \<or> u = 0x85 \<or> u = 0xA0)"

text \<open>
  \<^verbatim>\<open>stream >> word\<close>: leading whitespace is skipped, then the characters up to the next
  whitespace (or to the last deliverable character) are the word.  When nothing is left
  after the whitespace the word is empty and the status becomes \<^verbatim>\<open>ReadPastEnd\<close>.
\<close>

definition readWord :: "QTextStream \<Rightarrow> string \<times> QTextStream" where
  "readWord s =
     (let skipped = takeWhile isSpace (ts_buf s);
          rest = dropWhile isSpace (ts_buf s);
          word = takeWhile (\<lambda>c. \<not> isSpace c) rest
      in if rest = []
         then ([], s\<lparr>ts_buf := [], ts_pos := ts_pos s + length skipped, ts_status := True\<rparr>)
         else (word, s\<lparr>ts_buf := dropWhile (\<lambda>c. \<not> isSpace c) rest,
                       ts_pos := ts_pos s + length skipped + length word\<rparr>))"

definition atEnd :: "QTextStream \<Rightarrow> bool" where
  "atEnd s = (ts_buf s = [] \<and> \<not> ts_devFail s)"

text \<open>A stream over a string (\<^verbatim>\<open>QTextStream stream(&text)\<close>), positioned at offset \<open>p\<close>.\<close>

definition stringStream :: "string \<Rightarrow> nat \<Rightarrow> QTextStream" where
  "stringStream text p = \<lparr>ts_buf = drop p text, ts_pos = p, ts_devFail = False, ts_status = False\<rparr>"

section \<open>The chunker\<close>

text \<open>\<^verbatim>\<open>words.join(" ")\<close>.\<close>

fun join_words :: "string list \<Rightarrow> string" where
  "join_words [] = []"
| "join_words [w] = w"
| "join_words (w # ws) = w @ '' '' @ join_words ws"

text \<open>The values \<^verbatim>\<open>chunkStream\<close> passes on to every chunk row.\<close>

record chunk_meta =
  cm_folder_id :: int
  cm_document_id :: int
  cm_file :: string
  cm_title :: string
  cm_author :: string
  cm_subject :: string
  cm_keywords :: string
  cm_page :: int

text \<open>
  The body of \<^verbatim>\<open>if (!words.isEmpty())\<close> in \<^verbatim>\<open>chunkStream\<close>: the chunk row is inserted and
  the chunk is handed to \<^verbatim>\<open>appendChunk\<close>, also when the insertion failed.
\<close>

definition flushChunk :: "chunk_meta \<Rightarrow> string list \<Rightarrow> sys \<Rightarrow> sys" where
  "flushChunk m ws st =
     (let chunk = join_words ws;
          r = addChunk (cm_document_id m) chunk (cm_file m) (cm_title m) (cm_author m)
                (cm_subject m) (cm_keywords m) (cm_page m) (- 1) (- 1) (int (length ws)) st;
          chunk_id = fst (snd r);
          st1 = snd (snd r)
      in appendChunk \<lparr>ec_folder_id = cm_folder_id m, ec_chunk_id = chunk_id, ec_chunk = chunk\<rparr> st1)"

text \<open>
  One iteration of the \<^verbatim>\<open>for (;;)\<close> loop of \<^verbatim>\<open>chunkStream\<close>, with the local variables
  \<open>charCount\<close>, \<open>words\<close> and \<open>chunks\<close> as arguments: the iteration either leaves the function
  (\<open>Return\<close>, with the value returned) or goes round again (\<open>Continue\<close>).  The body of
  \<^verbatim>\<open>if (!words.isEmpty())\<close> up to \<^verbatim>\<open>appendChunk(toEmbed)\<close> is the argument \<open>flush\<close>, and
  \<open>chunkSize\<close> is \<^verbatim>\<open>m_chunkSize\<close>, which nothing changes during the call.  \<open>charCount\<close> is
  an unbounded integer: the \<^verbatim>\<open>int\<close> of the source would overflow only on a chunk of more than
  \<open>2^31\<close> characters, where the source has no defined behaviour.
\<close>

datatype 's loop_step =
    Return int 's
  | Continue QTextStream int "string list" int 's

definition chunkStream_body ::
  "(string list \<Rightarrow> 's \<Rightarrow> 's) \<Rightarrow> int \<Rightarrow> int \<Rightarrow> QTextStream \<Rightarrow> int \<Rightarrow> string list \<Rightarrow> int \<Rightarrow> 's
     \<Rightarrow> 's loop_step" where
  "chunkStream_body flush chunkSize maxChunks stream charCount ws chunkcount st =
     (let word = fst (readWord stream);
          stream1 = snd (readWord stream)
      in if ts_status stream1 \<and> \<not> atEnd stream1 then Return (- 1) st
         else
           (let charCount1 = charCount + int (length word);
                ws1 = (if word \<noteq> [] then ws @ [word] else ws)
            in if ts_status stream1 \<or> charCount1 + int (length ws1) - 1 \<ge> chunkSize
               then
                 (let flushed = (ws1 \<noteq> []);
                      st2 = (if flushed then flush ws1 st else st);
                      chunkcount2 = (if flushed then chunkcount + 1 else chunkcount);
                      ws2 = (if flushed then [] else ws1);
                      charCount2 = (if flushed then 0 else charCount1)
                  in if ts_status stream1 \<or> (maxChunks > 0 \<and> chunkcount2 = maxChunks)
                     then Return (int (ts_pos stream1)) st2
                     else Continue stream1 charCount2 ws2 chunkcount2 st2)
               else Continue stream1 charCount1 ws1 chunkcount st))"

function chunkStream_loop ::
  "(string list \<Rightarrow> 's \<Rightarrow> 's) \<Rightarrow> int \<Rightarrow> int \<Rightarrow> QTextStream \<Rightarrow> int \<Rightarrow> string list \<Rightarrow> int \<Rightarrow> 's
     \<Rightarrow> int \<times> 's" where
  "chunkStream_loop flush chunkSize maxChunks stream charCount ws chunkcount st =
     (case chunkStream_body flush chunkSize maxChunks stream charCount ws chunkcount st of
        Return r st' \<Rightarrow> (r, st')
      | Continue stream' charCount' ws' chunkcount' st' \<Rightarrow>
          chunkStream_loop flush chunkSize maxChunks stream' charCount' ws' chunkcount' st')"
  by pat_completeness auto

lemma readWord_shrinks:
  assumes "\<not> ts_status (snd (readWord s))"
  shows "length (ts_buf (snd (readWord s))) < length (ts_buf s)"
proof -
  let ?rest = "dropWhile isSpace (ts_buf s)"
  from assms have ne: "?rest \<noteq> []"
    by (auto simp: readWord_def Let_def split: if_splits)
  then have h: "\<not> isSpace (hd ?rest)"
    using hd_dropWhile by blast
  from ne h have "dropWhile (\<lambda>c. \<not> isSpace c) ?rest = dropWhile (\<lambda>c. \<not> isSpace c) (tl ?rest)"
    by (cases ?rest) auto
  moreover have "length (dropWhile (\<lambda>c. \<not> isSpace c) (tl ?rest)) \<le> length (tl ?rest)"
    by (rule length_dropWhile_le)
  ultimately have "length (dropWhile (\<lambda>c. \<not> isSpace c) ?rest) \<le> length (tl ?rest)"
    by simp
  also have "\<dots> < length ?rest" using ne by simp
  also have "\<dots> \<le> length (ts_buf s)" by (simp add: length_dropWhile_le)
  finally have "length (dropWhile (\<lambda>c. \<not> isSpace c) ?rest) < length (ts_buf s)" .
  moreover have "ts_buf (snd (readWord s)) = dropWhile (\<lambda>c. \<not> isSpace c) ?rest"
    unfolding readWord_def Let_def using ne by (simp del: dropWhile_eq_Nil_conv)
  ultimately show ?thesis by simp
qed

lemma chunkStream_body_Continue:
  assumes "chunkStream_body flush chunkSize maxChunks stream charCount ws chunkcount st
             = Continue stream' charCount' ws' chunkcount' st'"
  shows "stream' = snd (readWord stream) \<and> \<not> ts_status stream'"
  using assms by (auto simp: chunkStream_body_def Let_def split: if_splits)

termination chunkStream_loop
proof (relation "measure (\<lambda>(flush, chunkSize, maxChunks, stream, charCount, ws, chunkcount, st).
                            length (ts_buf stream))")
  show "wf (measure (\<lambda>(flush :: string list \<Rightarrow> 's \<Rightarrow> 's, chunkSize :: int, maxChunks :: int,
                       stream, charCount :: int, ws :: string list, chunkcount :: int, st :: 's).
                      length (ts_buf stream)))"
    by simp
next
  fix flush :: "string list \<Rightarrow> 's \<Rightarrow> 's"
  fix chunkSize maxChunks :: int and stream charCount ws chunkcount and st :: 's
  fix stream' charCount' ws' chunkcount' st'
  assume "chunkStream_body flush chunkSize maxChunks stream charCount ws chunkcount st
            = Continue stream' charCount' ws' chunkcount' st'"
  then have "stream' = snd (readWord stream) \<and> \<not> ts_status stream'"
    by (rule chunkStream_body_Continue)
  then show "((flush, chunkSize, maxChunks, stream', charCount', ws', chunkcount', st'),
              (flush, chunkSize, maxChunks, stream, charCount, ws, chunkcount, st))
             \<in> measure (\<lambda>(flush, chunkSize, maxChunks, stream, charCount, ws, chunkcount, st).
                           length (ts_buf stream))"
    using readWord_shrinks [of stream] by auto
qed

declare chunkStream_loop.simps [simp del]

lemma chunkStream_loop_Return:
  "chunkStream_body f B m s cc ws k st = Return r st'
   \<Longrightarrow> chunkStream_loop f B m s cc ws k st = (r, st')"
  by (subst chunkStream_loop.simps) simp

lemma chunkStream_loop_Continue:
  "chunkStream_body f B m s cc ws k st = Continue s' cc' ws' k' st'
   \<Longrightarrow> chunkStream_loop f B m s cc ws k st = chunkStream_loop f B m s' cc' ws' k' st'"
  by (subst chunkStream_loop.simps) simp

text \<open>
  \<^verbatim>\<open>Database::chunkStream\<close>.  The result \<open>- 1\<close> stands for the \<^verbatim>\<open>size_t\<close> the source returns
  for \<^verbatim>\<open>-1\<close>.
\<close>

definition chunkStream ::
  "QTextStream \<Rightarrow> int \<Rightarrow> int \<Rightarrow> string \<Rightarrow> string \<Rightarrow> string \<Rightarrow> string \<Rightarrow> string \<Rightarrow> int \<Rightarrow> int
     \<Rightarrow> sys \<Rightarrow> int \<times> sys" where
  "chunkStream stream folder_id document_id file title author subject keywords page maxChunks st =
     chunkStream_loop
       (flushChunk \<lparr>cm_folder_id = folder_id, cm_document_id = document_id, cm_file = file,
                    cm_title = title, cm_author = author, cm_subject = subject,
                    cm_keywords = keywords, cm_page = page\<rparr>)
       (m_chunkSize st) maxChunks stream 0 [] 0 st"

text \<open>
  The chunks one call of \<^verbatim>\<open>chunkStream\<close> flushes, each as its list of words, in order, and
  the value the call returns: the loop of \<^verbatim>\<open>chunkStream\<close> run with a \<open>flush\<close> that records
  \<open>words\<close>.
\<close>

definition chunkStream_chunks :: "int \<Rightarrow> int \<Rightarrow> QTextStream \<Rightarrow> int \<times> string list list" where
  "chunkStream_chunks chunkSize maxChunks stream =
     chunkStream_loop (\<lambda>ws acc. acc @ [ws]) chunkSize maxChunks stream 0 [] 0 []"


section \<open>Notions used in the statements about the chunker\<close>

text \<open>
  The quantity the budget is compared with: the sum of the lengths of the words of a chunk
  plus one separator between neighbours, which is \<^verbatim>\<open>charCount + words.size() - 1\<close>.
\<close>

definition chunk_chars :: "string list \<Rightarrow> int" where
  "chunk_chars ws = sum_list (map (\<lambda>w. int (length w)) ws) + int (length ws) - 1"

text \<open>
  What the amended budget claim says of one chunk: it is not empty, and it has one word or
  was under the budget before its last word.
\<close>

definition under_budget_before_last :: "int \<Rightarrow> string list \<Rightarrow> bool" where
  "under_budget_before_last B ws = (ws \<noteq> [] \<and> (length ws = 1 \<or> chunk_chars (butlast ws) < B))"

text \<open>
  What the closing rule says of the result of a call, for the position \<open>e\<close> of the end of
  the stream: every chunk but the last has reached the budget, and so has the last unless
  the call has read the stream to its end and returns \<open>e\<close>.
\<close>

definition closed_on_budget :: "int \<Rightarrow> int \<Rightarrow> int \<times> string list list \<Rightarrow> bool" where
  "closed_on_budget B e res =
     ((\<forall>c \<in> set (butlast (snd res)). B \<le> chunk_chars c)
      \<and> (snd res \<noteq> [] \<and> chunk_chars (last (snd res)) < B \<longrightarrow> fst res = e))"

text \<open>
  The words one iteration of the loop flushes, if it flushes, and the effect of the
  iteration on the state for a given \<open>flush\<close>.
\<close>

definition flushed_words :: "int \<Rightarrow> QTextStream \<Rightarrow> int \<Rightarrow> string list \<Rightarrow> string list option" where
  "flushed_words chunkSize stream charCount ws =
     (let word = fst (readWord stream);
          stream1 = snd (readWord stream);
          ws1 = (if word \<noteq> [] then ws @ [word] else ws)
      in if (ts_status stream1 \<or> charCount + int (length word) + int (length ws1) - 1 \<ge> chunkSize)
            \<and> ws1 \<noteq> [] \<and> \<not> (ts_status stream1 \<and> \<not> atEnd stream1)
         then Some ws1 else None)"

fun apply_flush :: "(string list \<Rightarrow> 's \<Rightarrow> 's) \<Rightarrow> string list option \<Rightarrow> 's \<Rightarrow> 's" where
  "apply_flush f None st = st"
| "apply_flush f (Some ws) st = f ws st"

text \<open>A stream that reads the text \<open>text\<close> and never fails on its device.\<close>

definition on_text :: "string \<Rightarrow> QTextStream \<Rightarrow> bool" where
  "on_text text s = (ts_buf s = drop (ts_pos s) text \<and> \<not> ts_devFail s)"

section \<open>Dispatching embedding batches\<close>

text \<open>
  \<^verbatim>\<open>Database::scheduleNext\<close>: when the folder has no document left in the queue, the pending
  chunks are sent.
\<close>

definition scheduleNext :: "int \<Rightarrow> nat \<Rightarrow> sys \<Rightarrow> sys" where
  "scheduleNext folder_id countForFolder st =
     (if countForFolder = 0 \<and> m_chunkList st \<noteq> [] then sendChunkList st else st)"

text \<open>
  \<^verbatim>\<open>SELECT_UNCOMPLETED_CHUNKS_SQL\<close>: the chunks without embedding of the documents of a
  folder.
\<close>

definition selectAllUncompletedChunks :: "int \<Rightarrow> sys \<Rightarrow> EmbeddingChunk list" where
  "selectAllUncompletedChunks folder_id st =
     concat (map (\<lambda>c. map (\<lambda>d. \<lparr>ec_folder_id = d_folder_id d, ec_chunk_id = c_id c,
                                ec_chunk = c_chunk_text c\<rparr>)
                        (filter (\<lambda>d. c_document_id c = d_id d \<and> d_folder_id d = folder_id)
                                (tb_documents (m_db st))))
                 (filter (\<lambda>c. \<not> c_has_embedding c) (tb_chunks (m_db st))))"

text \<open>\<^verbatim>\<open>QList::mid(pos, length)\<close>.\<close>

definition mid :: "'a list \<Rightarrow> nat \<Rightarrow> nat \<Rightarrow> 'a list" where
  "mid xs pos len = take len (drop pos xs)"

text \<open>The loop \<^verbatim>\<open>for (int i = 0; i < chunkList.size(); i += s_batchSize)\<close>.\<close>

function scheduleUncompletedEmbeddings_loop :: "nat \<Rightarrow> EmbeddingChunk list \<Rightarrow> sys \<Rightarrow> sys" where
  "scheduleUncompletedEmbeddings_loop i chunkList st =
     (if i < length chunkList
      then scheduleUncompletedEmbeddings_loop (i + nat s_batchSize) chunkList
             (exec (GenerateAsyncEmbeddings (mid chunkList i (nat s_batchSize))) st)
      else st)"
  by pat_completeness auto

termination scheduleUncompletedEmbeddings_loop
  by (relation "measure (\<lambda>(i, chunkList, st). length chunkList - i)")
     (auto simp: s_batchSize_def)

declare scheduleUncompletedEmbeddings_loop.simps [simp del]

definition scheduleUncompletedEmbeddings :: "int \<Rightarrow> sys \<Rightarrow> sys" where
  "scheduleUncompletedEmbeddings folder_id st =
     (let chunkList = selectAllUncompletedChunks folder_id st
      in if chunkList = [] then st else scheduleUncompletedEmbeddings_loop 0 chunkList st)"

section \<open>Completed embedding batches\<close>

definition selectFileForChunk :: "int \<Rightarrow> sys \<Rightarrow> bool \<times> string" where
  "selectFileForChunk chunk_id st =
     (case filter (\<lambda>c. c_id c = chunk_id) (tb_chunks (m_db st)) of
        [] \<Rightarrow> (False, [])
      | c # _ \<Rightarrow> (True, c_file c))"

definition updateChunkHasEmbedding :: "int \<Rightarrow> sys \<Rightarrow> bool \<times> sys" where
  "updateChunkHasEmbedding chunk_id st =
     (True, exec (DbWrite (UPDATE_CHUNK_HAS_EMBEDDING_SQL chunk_id)) st)"

text \<open>
  Modelled from the spec: the operations of the vector index (\<^verbatim>\<open>Embeddings::add\<close>,
  \<^verbatim>\<open>remove\<close>, \<^verbatim>\<open>save\<close>), missing with the class.  \<open>add\<close> is refused for a vector
  that has not the dimensionality of the index, \<open>save\<close> writes the whole index to its file.
\<close>

definition Embeddings_add :: "real list \<Rightarrow> int \<Rightarrow> sys \<Rightarrow> bool \<times> sys" where
  "Embeddings_add v label st =
     (if Embeddings_add_ok (m_embeddings st) v then (True, exec (IndexAdd label v) st)
      else (False, st))"

definition Embeddings_remove :: "int \<Rightarrow> sys \<Rightarrow> sys" where
  "Embeddings_remove label st = exec (IndexRemove label) st"

definition Embeddings_save :: "sys \<Rightarrow> sys" where
  "Embeddings_save st = exec IndexSave st"

text \<open>
  The loop over the results in \<^verbatim>\<open>handleEmbeddingsGenerated\<close>, with \<open>chunksToAdd\<close> as
  argument.
\<close>

fun handleEmbeddingsGenerated_loop :: "EmbeddingResult list \<Rightarrow> int list \<Rightarrow> sys \<Rightarrow> int list \<times> sys" where
  "handleEmbeddingsGenerated_loop [] chunksToAdd st = (chunksToAdd, st)"
| "handleEmbeddingsGenerated_loop (e # es) chunksToAdd st =
     (if \<not> fst (selectFileForChunk (er_chunk_id e) st)
      then handleEmbeddingsGenerated_loop es chunksToAdd st
      else if \<not> fst (Embeddings_add (er_embedding e) (er_chunk_id e) st)
      then handleEmbeddingsGenerated_loop es chunksToAdd
             (snd (Embeddings_add (er_embedding e) (er_chunk_id e) st))
      else handleEmbeddingsGenerated_loop es (chunksToAdd @ [er_chunk_id e])
             (snd (Embeddings_add (er_embedding e) (er_chunk_id e) st)))"

definition handleEmbeddingsGenerated :: "EmbeddingResult list \<Rightarrow> sys \<Rightarrow> sys" where
  "handleEmbeddingsGenerated embeddings st =
     (let chunksToAdd = fst (handleEmbeddingsGenerated_loop embeddings [] st);
          st1 = snd (handleEmbeddingsGenerated_loop embeddings [] st)
      in if chunksToAdd = [] then st1
         else commit (fold (\<lambda>chunk_id s. snd (updateChunkHasEmbedding chunk_id s)) chunksToAdd
                        (transaction (Embeddings_save st1))))"

text \<open>
  What is left of a state when the process dies and is started again: the tables as of the
  last commit, the vector index as last written to its file, and empty queues.
\<close>

definition durable_db :: "sys \<Rightarrow> tables" where
  "durable_db st = (case m_tx st of None \<Rightarrow> m_db st | Some t \<Rightarrow> t)"

definition durable_index :: "sys \<Rightarrow> (int \<times> real list) list" where
  "durable_index st = (case e_file (m_embeddings st) of None \<Rightarrow> [] | Some entries \<Rightarrow> entries)"

definition crash :: "sys \<Rightarrow> sys" where
  "crash st = st\<lparr>m_db := durable_db st, m_tx := None, m_chunkList := [], m_docsToScan := [],
                 m_embeddings := (m_embeddings st)\<lparr>e_entries := durable_index st\<rparr>\<rparr>"

text \<open>Every chunk row marked as embedded has a vector under its id in the index \<open>idx\<close>.\<close>

definition embedded_have_vectors :: "tables \<Rightarrow> (int \<times> real list) list \<Rightarrow> bool" where
  "embedded_have_vectors t idx =
     list_all (\<lambda>c. c_has_embedding c \<longrightarrow> c_id c \<in> set (map fst idx)) (tb_chunks t)"

text \<open>
  A state between two operations: no transaction is open, and the chunks marked as embedded
  have their vectors in the index in memory and in the index file.
\<close>

definition consistent :: "sys \<Rightarrow> bool" where
  "consistent st =
     (m_tx st = None
      \<and> embedded_have_vectors (m_db st) (e_entries (m_embeddings st))
      \<and> embedded_have_vectors (m_db st) (durable_index st))"

section \<open>Retrieval\<close>

text \<open>
  The schema \<^verbatim>\<open>INIT_DB_SQL\<close> creates: the tables with their columns.  \<^verbatim>\<open>q.prepare\<close>
  fails on a statement that names a column its table does not have.
\<close>

definition INIT_DB_SQL :: "(string \<times> string list) list" where
  "INIT_DB_SQL =
     [(''chunks'', [''id'', ''document_id'', ''chunk_text'', ''file'', ''title'', ''author'',
                    ''subject'', ''keywords'', ''page'', ''line_from'', ''line_to'', ''words'',
                    ''tokens'', ''has_embedding'']),
      (''collections'', [''id'', ''name'', ''last_update_time'', ''embedding_model'']),
      (''folders'', [''id'', ''folder_path'']),
      (''collection_items'', [''collection_id'', ''folder_id'']),
      (''documents'', [''id'', ''folder_id'', ''document_time'', ''document_path''])]"

definition prepare :: "(string \<times> string list) list \<Rightarrow> (string \<times> string) list \<Rightarrow> bool" where
  "prepare schema column_refs =
     list_all (\<lambda>r. case map_of schema (fst r) of None \<Rightarrow> False
                                                 | Some cols \<Rightarrow> snd r \<in> set cols)
              column_refs"

text \<open>The columns \<^verbatim>\<open>SELECT_CHUNKS_SQL\<close> names, each with its table.\<close>

definition SELECT_CHUNKS_SQL_columns :: "(string \<times> string) list" where
  "SELECT_CHUNKS_SQL_columns =
     [(''chunks'', ''id''), (''documents'', ''document_time''), (''chunks'', ''chunk_text''),
      (''chunks'', ''file''), (''chunks'', ''title''), (''chunks'', ''author''),
      (''chunks'', ''page''), (''chunks'', ''line_from''), (''chunks'', ''line_to''),
      (''chunks'', ''document_id''), (''documents'', ''id''),
      (''documents'', ''folder_id''), (''folders'', ''id''),
      (''folders'', ''id''), (''collections'', ''folder_id''),
      (''chunks'', ''id''), (''collections'', ''name'')]"

text \<open>
  The rows of the tables as SQL sees them, a value under each column name, so that the
  \<^verbatim>\<open>select\<close> can be evaluated as it is written.
\<close>

datatype sqlval = SqlInt int | SqlText string | SqlNull

definition chunk_sqlrow :: "chunk_row \<Rightarrow> (string \<times> sqlval) list" where
  "chunk_sqlrow c =
     [(''id'', SqlInt (c_id c)), (''document_id'', SqlInt (c_document_id c)),
      (''chunk_text'', SqlText (c_chunk_text c)), (''file'', SqlText (c_file c)),
      (''title'', SqlText (c_title c)), (''author'', SqlText (c_author c)),
      (''subject'', SqlText (c_subject c)), (''keywords'', SqlText (c_keywords c)),
      (''page'', SqlInt (c_page c)), (''line_from'', SqlInt (c_line_from c)),
      (''line_to'', SqlInt (c_line_to c)), (''words'', SqlInt (c_words c)),
      (''tokens'', SqlInt (c_tokens c)),
      (''has_embedding'', SqlInt (if c_has_embedding c then 1 else 0))]"

definition document_sqlrow :: "document_row \<Rightarrow> (string \<times> sqlval) list" where
  "document_sqlrow d =
     [(''id'', SqlInt (d_id d)), (''folder_id'', SqlInt (d_folder_id d)),
      (''document_time'', SqlInt (d_document_time d)),
      (''document_path'', SqlText (d_document_path d))]"

definition folder_sqlrow :: "folder_row \<Rightarrow> (string \<times> sqlval) list" where
  "folder_sqlrow f = [(''id'', SqlInt (f_id f)), (''folder_path'', SqlText (f_folder_path f))]"

definition collection_sqlrow :: "collection_row \<Rightarrow> (string \<times> sqlval) list" where
  "collection_sqlrow c =
     [(''id'', SqlInt (co_id c)), (''name'', SqlText (co_name c)),
      (''last_update_time'', (case co_last_update_time c of None \<Rightarrow> SqlNull | Some t \<Rightarrow> SqlInt t)),
      (''embedding_model'', (case co_embedding_model c of None \<Rightarrow> SqlNull | Some m \<Rightarrow> SqlText m))]"

text \<open>SQL equality: true only of two values that are present, not null and equal.\<close>

fun sql_eq :: "sqlval option \<Rightarrow> sqlval option \<Rightarrow> bool" where
  "sql_eq (Some SqlNull) _ = False"
| "sql_eq _ (Some SqlNull) = False"
| "sql_eq (Some a) (Some b) = (a = b)"
| "sql_eq _ _ = False"

text \<open>
  The rows \<^verbatim>\<open>SELECT_CHUNKS_SQL\<close> selects, with \<open>%1\<close> the chunk ids and \<open>%2\<close> the collection
  names: the join of \<^verbatim>\<open>chunks\<close>, \<^verbatim>\<open>documents\<close>, \<^verbatim>\<open>folders\<close> and \<^verbatim>\<open>collections\<close> as the
  statement writes it, each row with the nine selected values.
\<close>

definition SELECT_CHUNKS_SQL_rows :: "tables \<Rightarrow> int list \<Rightarrow> string list \<Rightarrow> sqlval option list list" where
  "SELECT_CHUNKS_SQL_rows t chunk_ids collection_names =
     [[map_of c ''id'', map_of d ''document_time'', map_of c ''chunk_text'', map_of c ''file'',
       map_of c ''title'', map_of c ''author'', map_of c ''page'', map_of c ''line_from'',
       map_of c ''line_to''].
        c \<leftarrow> map chunk_sqlrow (tb_chunks t),
        d \<leftarrow> map document_sqlrow (tb_documents t),
        sql_eq (map_of c ''document_id'') (map_of d ''id''),
        f \<leftarrow> map folder_sqlrow (tb_folders t),
        sql_eq (map_of d ''folder_id'') (map_of f ''id''),
        co \<leftarrow> map collection_sqlrow (tb_collections t),
        sql_eq (map_of f ''id'') (map_of co ''folder_id''),
        list_ex (\<lambda>i. sql_eq (map_of c ''id'') (Some (SqlInt i))) chunk_ids,
        list_ex (\<lambda>n. sql_eq (map_of co ''name'') (Some (SqlText n))) collection_names]"

text \<open>
  What can go wrong in a way the source does not handle: reading an element of an empty
  \<^verbatim>\<open>std::vector\<close>.
\<close>

datatype fault = OutOfBounds

text \<open>
  \<^verbatim>\<open>selectChunk\<close>: the value returned and the rows the query then holds.  The first
  statement reads \<^verbatim>\<open>chunk_ids[0]\<close>.
\<close>

definition selectChunk ::
  "string list \<Rightarrow> int list \<Rightarrow> int \<Rightarrow> sys \<Rightarrow> fault + (bool \<times> sqlval option list list)" where
  "selectChunk collection_names chunk_ids retrievalSize st =
     (if chunk_ids = [] then Inl OutOfBounds
      else if \<not> prepare INIT_DB_SQL SELECT_CHUNKS_SQL_columns then Inr (False, [])
      else Inr (True, SELECT_CHUNKS_SQL_rows (m_db st) chunk_ids collection_names))"

text \<open>\<^verbatim>\<open>QVariant::toInt\<close> and \<^verbatim>\<open>QVariant::toString\<close> on a value of a row.\<close>

fun toInt :: "sqlval option \<Rightarrow> int" where
  "toInt (Some (SqlInt n)) = n"
| "toInt _ = 0"

fun toString :: "sqlval option \<Rightarrow> string" where
  "toString (Some (SqlText s)) = s"
| "toString _ = []"

text \<open>
  \<^verbatim>\<open>ResultInfo\<close>.  \<open>ri_date\<close> is the document time in milliseconds; its formatting as a date
  is not modelled.
\<close>

record ResultInfo =
  ri_file :: string
  ri_title :: string
  ri_author :: string
  ri_date :: int
  ri_text :: string
  ri_page :: int
  ri_from :: int
  ri_to :: int

definition resultInfo :: "sqlval option list \<Rightarrow> ResultInfo" where
  "resultInfo row =
     \<lparr>ri_file = toString (row ! 3), ri_title = toString (row ! 4), ri_author = toString (row ! 5),
      ri_date = toInt (row ! 1), ri_text = toString (row ! 2), ri_page = toInt (row ! 6),
      ri_from = toInt (row ! 7), ri_to = toInt (row ! 8)\<rparr>"

text \<open>
  \<^verbatim>\<open>Database::retrieveFromDB\<close>.  \<open>result\<close> is what the embedding backend returns for the
  query text and \<open>embeddings\<close> what the search of the vector index returns for it; both are
  computed outside this program and taken as given.
\<close>

definition retrieveFromDB ::
  "real list \<Rightarrow> int list \<Rightarrow> string list \<Rightarrow> string \<Rightarrow> int \<Rightarrow> ResultInfo list \<Rightarrow> sys
     \<Rightarrow> fault + ResultInfo list" where
  "retrieveFromDB result embeddings collections text retrievalSize results st =
     (if \<not> e_loaded (m_embeddings st) then Inr results
      else if result = [] then Inr results
      else (case selectChunk collections embeddings retrievalSize st of
              Inl fault \<Rightarrow> Inl fault
            | Inr r \<Rightarrow> if \<not> fst r then Inr results
                       else Inr (results @ map resultInfo (snd r))))"

section \<open>Removing a folder\<close>

text \<open>\<^verbatim>\<open>selectFolder\<close> by path: the id stays \<open>- 1\<close> when no row has the path.\<close>

definition selectFolder :: "string \<Rightarrow> sys \<Rightarrow> int" where
  "selectFolder folder_path st =
     (case filter (\<lambda>f. f_folder_path f = folder_path) (tb_folders (m_db st)) of
        [] \<Rightarrow> - 1
      | f # _ \<Rightarrow> f_id f)"

text \<open>
  \<^verbatim>\<open>removeCollectionFolder\<close>: \<open>- 1\<close> when the statement returns no row, which is when it
  deleted none; otherwise, as the comment in the source says, the number of references to
  the folder that remain.
\<close>

definition removeCollectionFolder :: "string \<Rightarrow> int \<Rightarrow> sys \<Rightarrow> int \<times> sys" where
  "removeCollectionFolder collection_name folder_id st =
     (let st' = exec (DbWrite (DELETE_COLLECTION_FOLDER_SQL collection_name folder_id)) st
      in if tb_collection_items (m_db st') = tb_collection_items (m_db st) then (- 1, st')
         else (int (length (filter (\<lambda>ci. snd ci = folder_id) (tb_collection_items (m_db st')))),
               st'))"

definition sqlPruneCollections :: "sys \<Rightarrow> bool \<times> sys" where
  "sqlPruneCollections st = (True, exec (DbWrite PRUNE_COLLECTIONS_SQL) st)"

definition removeFolderFromDocumentQueue :: "int \<Rightarrow> sys \<Rightarrow> sys" where
  "removeFolderFromDocumentQueue folder_id st =
     st\<lparr>m_docsToScan := filter (\<lambda>q. fst q \<noteq> folder_id) (m_docsToScan st)\<rparr>"

definition selectDocuments :: "int \<Rightarrow> sys \<Rightarrow> int list" where
  "selectDocuments folder_id st =
     map d_id (filter (\<lambda>d. d_folder_id d = folder_id) (tb_documents (m_db st)))"

text \<open>\<^verbatim>\<open>getChunksByDocumentId\<close> appends the ids to the list it is given.\<close>

definition getChunksByDocumentId :: "int \<Rightarrow> int list \<Rightarrow> sys \<Rightarrow> bool \<times> int list" where
  "getChunksByDocumentId document_id chunkIds st =
     (True, chunkIds @ map c_id (filter (\<lambda>c. c_document_id c = document_id) (tb_chunks (m_db st))))"

definition removeChunksByDocumentId :: "int \<Rightarrow> sys \<Rightarrow> bool \<times> sys" where
  "removeChunksByDocumentId document_id st =
     (True, exec (DbWrite (DELETE_CHUNKS_SQL document_id)) st)"

definition removeDocument :: "int \<Rightarrow> sys \<Rightarrow> bool \<times> sys" where
  "removeDocument document_id st = (True, exec (DbWrite (DELETE_DOCUMENTS_SQL document_id)) st)"

definition removeFolderFromDB :: "int \<Rightarrow> sys \<Rightarrow> bool \<times> sys" where
  "removeFolderFromDB folder_id st = (True, exec (DbWrite (DELETE_FOLDERS_SQL folder_id)) st)"

text \<open>
  The loop over \<open>documentIds\<close> in \<^verbatim>\<open>removeFolderInternal\<close>; the first component of the
  result is \<open>False\<close> when the loop left the function with \<^verbatim>\<open>return false\<close>.
\<close>

fun removeFolderInternal_loop :: "int list \<Rightarrow> int list \<Rightarrow> sys \<Rightarrow> bool \<times> int list \<times> sys" where
  "removeFolderInternal_loop [] chunksToRemove st = (True, chunksToRemove, st)"
| "removeFolderInternal_loop (document_id # ids) chunksToRemove st =
     (if \<not> fst (getChunksByDocumentId document_id chunksToRemove st)
      then (False, chunksToRemove, st)
      else if \<not> fst (removeChunksByDocumentId document_id st)
      then (False, snd (getChunksByDocumentId document_id chunksToRemove st),
            snd (removeChunksByDocumentId document_id st))
      else if \<not> fst (removeDocument document_id (snd (removeChunksByDocumentId document_id st)))
      then (False, snd (getChunksByDocumentId document_id chunksToRemove st),
            snd (removeDocument document_id (snd (removeChunksByDocumentId document_id st))))
      else removeFolderInternal_loop ids
             (snd (getChunksByDocumentId document_id chunksToRemove st))
             (snd (removeDocument document_id (snd (removeChunksByDocumentId document_id st)))))"

text \<open>
  \<^verbatim>\<open>Database::removeFolderInternal\<close>.  The folder watcher and the mirror for the user
  interface are not part of the state.
\<close>

definition removeFolderInternal ::
  "string \<Rightarrow> int \<Rightarrow> string \<Rightarrow> int list \<Rightarrow> sys \<Rightarrow> bool \<times> int list \<times> sys" where
  "removeFolderInternal collection folder_id path chunksToRemove st =
     (let nRemaining = fst (removeCollectionFolder collection folder_id st);
          st1 = snd (removeCollectionFolder collection folder_id st)
      in if nRemaining = - 1 then (False, chunksToRemove, st1)
         else if \<not> fst (sqlPruneCollections st1)
         then (False, chunksToRemove, snd (sqlPruneCollections st1))
         else
           (let st2 = snd (sqlPruneCollections st1)
            in if nRemaining \<noteq> 0 then (True, chunksToRemove, st2)
               else
                 (let st3 = removeFolderFromDocumentQueue folder_id st2;
                      documentIds = selectDocuments folder_id st3;
                      r = removeFolderInternal_loop documentIds chunksToRemove st3
                  in if \<not> fst r then r
                     else if \<not> fst (removeFolderFromDB folder_id (snd (snd r)))
                     then (False, fst (snd r), snd (removeFolderFromDB folder_id (snd (snd r))))
                     else (True, fst (snd r), snd (removeFolderFromDB folder_id (snd (snd r)))))))"

text \<open>
  The tail shared by \<^verbatim>\<open>removeFolder\<close>, \<^verbatim>\<open>scanQueueBatch\<close> and \<^verbatim>\<open>cleanDB\<close>: the ids
  gathered are removed from the index, the transaction is committed, and the index is
  saved if there were any.
\<close>

definition applyRemovals :: "int list \<Rightarrow> sys \<Rightarrow> sys" where
  "applyRemovals chunksToRemove st =
     (let st1 = fold Embeddings_remove chunksToRemove st;
          st2 = commit st1
      in if chunksToRemove \<noteq> [] then Embeddings_save st2 else st2)"

text \<open>\<^verbatim>\<open>Database::removeFolder\<close>.\<close>

definition removeFolder :: "string \<Rightarrow> string \<Rightarrow> sys \<Rightarrow> sys" where
  "removeFolder collection path st =
     (let folder_id = selectFolder path st
      in if folder_id = - 1 then st
         else
           (let st1 = transaction st;
                r = removeFolderInternal collection folder_id path [] st1
            in if fst r then applyRemovals (fst (snd r)) (snd (snd r))
               else rollback (snd (snd r))))"

text \<open>
  The invariant of the dispatch: fewer than \<^verbatim>\<open>s_batchSize\<close> chunks are pending, and every
  batch handed to the backend so far has at most \<^verbatim>\<open>s_batchSize\<close> chunks.
\<close>

definition batch_invariant :: "sys \<Rightarrow> bool" where
  "batch_invariant st =
     (int (length (m_chunkList st)) < s_batchSize
      \<and> list_all (\<lambda>e. case e of GenerateAsyncEmbeddings batch \<Rightarrow> int (length batch) \<le> s_batchSize
                           | _ \<Rightarrow> True) (m_log st))"

text \<open>A state with 99 pending chunks.\<close>

definition st99 :: sys where
  "st99 = \<lparr>m_db = \<lparr>tb_chunks = [], tb_chunks_seq = 0, tb_collections = [], tb_folders = [],
                    tb_collection_items = [], tb_documents = []\<rparr>,
           m_tx = None, m_chunkSize = 512,
           m_chunkList = replicate 99 \<lparr>ec_folder_id = 1, ec_chunk_id = 1, ec_chunk = ''a''\<rparr>,
           m_docsToScan = [],
           m_embeddings = \<lparr>e_dimension = 2, e_loaded = True, e_entries = [], e_file = None\<rparr>,
           m_log = []\<rparr>"

text \<open>The states a sequence of events leads through, the first one included.\<close>

fun states_along :: "event list \<Rightarrow> sys \<Rightarrow> sys list" where
  "states_along [] st = [st]"
| "states_along (e # es) st = st # states_along es (exec e st)"

text \<open>The ids under which a sequence of events adds vectors to the index.\<close>

fun index_adds :: "event list \<Rightarrow> int list" where
  "index_adds [] = []"
| "index_adds (IndexAdd label v # es) = label # index_adds es"
| "index_adds (e # es) = index_adds es"

text \<open>
  A crash in state \<open>s\<close> leaves a state in which every chunk marked as embedded has its
  vector in the index.
\<close>

definition recoverable :: "sys \<Rightarrow> bool" where
  "recoverable s = embedded_have_vectors (m_db (crash s)) (e_entries (m_embeddings (crash s)))"

text \<open>Every commit in a sequence of events comes after a save of the index.\<close>

definition flush_before_commit :: "event list \<Rightarrow> bool" where
  "flush_before_commit evs =
     list_all (\<lambda>i. evs ! i = TxCommit \<longrightarrow> IndexSave \<in> set (take i evs)) [0..<length evs]"

text \<open>A state with one chunk that has no embedding yet.\<close>

definition st_one_chunk :: sys where
  "st_one_chunk =
     \<lparr>m_db = \<lparr>tb_chunks = [\<lparr>c_id = 1, c_document_id = 1, c_chunk_text = ''alpha beta'',
                            c_file = ''a.txt'', c_title = [], c_author = [], c_subject = [],
                            c_keywords = [], c_page = - 1, c_line_from = - 1, c_line_to = - 1,
                            c_words = 2, c_tokens = 0, c_has_embedding = False\<rparr>],
              tb_chunks_seq = 1, tb_collections = [], tb_folders = [],
              tb_collection_items = [], tb_documents = []\<rparr>,
      m_tx = None, m_chunkSize = 512, m_chunkList = [], m_docsToScan = [],
      m_embeddings = \<lparr>e_dimension = 2, e_loaded = True, e_entries = [], e_file = None\<rparr>,
      m_log = []\<rparr>"

text \<open>
  The scenario of the spec: collection \<open>Work\<close> with folder 1 and three chunks (1, 2, 3),
  collection \<open>Personal\<close> with folder 2 and two chunks (4, 5), all five with vectors.
\<close>

definition chunk_of :: "int \<Rightarrow> int \<Rightarrow> string \<Rightarrow> chunk_row" where
  "chunk_of chunk_id document_id chunk_text =
     \<lparr>c_id = chunk_id, c_document_id = document_id, c_chunk_text = chunk_text,
      c_file = ''notes.txt'', c_title = [], c_author = [], c_subject = [], c_keywords = [],
      c_page = - 1, c_line_from = - 1, c_line_to = - 1, c_words = 1, c_tokens = 0,
      c_has_embedding = True\<rparr>"

definition st_work_personal :: sys where
  "st_work_personal =
     \<lparr>m_db = \<lparr>tb_chunks = [chunk_of 1 1 ''w1'', chunk_of 2 1 ''w2'', chunk_of 3 1 ''w3'',
                            chunk_of 4 2 ''p1'', chunk_of 5 2 ''p2''],
              tb_chunks_seq = 5,
              tb_collections =
                [\<lparr>co_id = 1, co_name = ''Work'', co_last_update_time = None,
                  co_embedding_model = Some ''m''\<rparr>,
                 \<lparr>co_id = 2, co_name = ''Personal'', co_last_update_time = None,
                  co_embedding_model = Some ''m''\<rparr>],
              tb_folders = [\<lparr>f_id = 1, f_folder_path = ''/work''\<rparr>,
                            \<lparr>f_id = 2, f_folder_path = ''/personal''\<rparr>],
              tb_collection_items = [(1, 1), (2, 2)],
              tb_documents =
                [\<lparr>d_id = 1, d_folder_id = 1, d_document_time = 10,
                  d_document_path = ''/work/notes.txt''\<rparr>,
                 \<lparr>d_id = 2, d_folder_id = 2, d_document_time = 10,
                  d_document_path = ''/personal/notes.txt''\<rparr>]\<rparr>,
      m_tx = None, m_chunkSize = 512, m_chunkList = [], m_docsToScan = [],
      m_embeddings = \<lparr>e_dimension = 2, e_loaded = True,
                      e_entries = [(1, [1, 0]), (2, [1, 0]), (3, [1, 0]), (4, [0, 1]), (5, [0, 1])],
                      e_file = Some [(1, [1, 0]), (2, [1, 0]), (3, [1, 0]), (4, [0, 1]), (5, [0, 1])]\<rparr>,
      m_log = []\<rparr>"

section \<open>Files\<close>

text \<open>
  What \<^verbatim>\<open>scanQueue\<close> sees of a file: the results of \<^verbatim>\<open>QFileInfo\<close> after \<^verbatim>\<open>stat()\<close>, of
  \<^verbatim>\<open>QPdfDocument\<close> and of \<^verbatim>\<open>QFile\<close>.  A file system maps a canonical path to the file, if it
  exists.  \<open>fl_readError\<close> is the offset from which \<^verbatim>\<open>QFile::readData\<close> reports an error,
  if there is one; \<open>w_bufferSize\<close> is the number of bytes the text stream asks of its
  device in one read.
\<close>

record PdfDocument =
  pdf_pages :: "string list"
  pdf_title :: string
  pdf_author :: string
  pdf_subject :: string
  pdf_keywords :: string

record fileinfo =
  fl_readable :: bool
  fl_mtime :: int
  fl_name :: string
  fl_isPdf :: bool
  fl_pdf :: "PdfDocument option"
  fl_openable :: bool
  fl_data :: string
  fl_readError :: "nat option"

record world =
  w_files :: "string \<Rightarrow> fileinfo option"
  w_bufferSize :: nat

text \<open>
  \<^verbatim>\<open>QFile::readData\<close> at device position \<open>pos\<close>: the bytes read and their number, or \<open>- 1\<close>.
\<close>

definition QFile_readData :: "fileinfo \<Rightarrow> nat \<Rightarrow> nat \<Rightarrow> string \<times> int" where
  "QFile_readData f pos maxSize =
     (case fl_readError f of
        None \<Rightarrow> (take maxSize (drop pos (fl_data f)),
                  int (length (take maxSize (drop pos (fl_data f)))))
      | Some e \<Rightarrow>
          if e \<le> pos then ([], - 1)
          else (take (min maxSize (e - pos)) (drop pos (fl_data f)),
                int (length (take (min maxSize (e - pos)) (drop pos (fl_data f))))))"

text \<open>
  \<^verbatim>\<open>BinaryDetectingFile::checkData\<close>: the new value of \<^verbatim>\<open>m_binarySeen\<close> and the value
  returned (\<open>sz\<close> is the parameter \<^verbatim>\<open>size\<close>).  A byte is a \<^typ>\<open>char\<close>; \<^verbatim>\<open>static_cast<unsigned char>\<close> is \<^const>\<open>of_char\<close>.
\<close>

definition control_byte :: "char \<Rightarrow> bool" where
  "control_byte ch =
     (let c = (of_char ch :: nat)
      in c < 0x07 \<or> (c \<ge> 0x0E \<and> c < 0x1B) \<or> (c \<ge> 0x1C \<and> c < 0x20))"

definition checkData :: "bool \<Rightarrow> string \<Rightarrow> int \<Rightarrow> bool \<times> int" where
  "checkData m_binarySeen data sz =
     (let seen = (if sz \<noteq> - 1 \<and> \<not> m_binarySeen
                  then list_ex control_byte (take (nat sz) data)
                  else m_binarySeen)
      in (seen, if seen then - 1 else sz))"

text \<open>\<^verbatim>\<open>BinaryDetectingFile::readData\<close>: the flag, the bytes and the value returned.\<close>

definition readData :: "fileinfo \<Rightarrow> bool \<Rightarrow> nat \<Rightarrow> nat \<Rightarrow> bool \<times> string \<times> int" where
  "readData f m_binarySeen pos maxSize =
     (let r = QFile_readData f pos maxSize;
          c = checkData m_binarySeen (fst r) (snd r)
      in (fst c, fst r, snd c))"

text \<open>
  Everything a text stream can deliver from device position \<open>pos\<close> on: it reads block after
  block until a read returns nothing (the end of the data) or fails.  The result is the
  characters delivered, whether the reads ended in a failure, and \<^verbatim>\<open>m_binarySeen\<close> then.
\<close>

function deliver :: "nat \<Rightarrow> fileinfo \<Rightarrow> bool \<Rightarrow> nat \<Rightarrow> string \<times> bool \<times> bool" where
  "deliver bufferSize f m_binarySeen pos =
     (if snd (snd (readData f m_binarySeen pos bufferSize)) < 0
      then ([], True, fst (readData f m_binarySeen pos bufferSize))
      else if snd (snd (readData f m_binarySeen pos bufferSize)) = 0
      then ([], False, fst (readData f m_binarySeen pos bufferSize))
      else (fst (snd (readData f m_binarySeen pos bufferSize))
              @ fst (deliver bufferSize f (fst (readData f m_binarySeen pos bufferSize))
                       (pos + nat (snd (snd (readData f m_binarySeen pos bufferSize))))),
            snd (deliver bufferSize f (fst (readData f m_binarySeen pos bufferSize))
                   (pos + nat (snd (snd (readData f m_binarySeen pos bufferSize)))))))"
  by pat_completeness auto

lemma readData_size:
  "0 < snd (snd (readData f seen pos maxSize))
   \<Longrightarrow> pos < length (fl_data f)
       \<and> nat (snd (snd (readData f seen pos maxSize))) \<le> length (fl_data f) - pos"
  by (auto simp: readData_def checkData_def QFile_readData_def Let_def
           split: option.splits if_splits)

lemma readData_advance:
  assumes "\<not> snd (snd (readData f seen pos maxSize)) < 0"
      and "snd (snd (readData f seen pos maxSize)) \<noteq> 0"
  shows "length (fl_data f) - (pos + nat (snd (snd (readData f seen pos maxSize))))
           < length (fl_data f) - pos"
proof -
  from assms have "0 < snd (snd (readData f seen pos maxSize))" by simp
  from readData_size [OF this] this show ?thesis by linarith
qed

termination deliver
  by (relation "measure (\<lambda>(bufferSize, f, m_binarySeen, pos). length (fl_data f) - pos)")
     (simp_all add: readData_advance)

declare deliver.simps [simp del]

text \<open>
  The stream \<^verbatim>\<open>scanQueue\<close> sets up on a text file, and \<^verbatim>\<open>file.binarySeen()\<close> once its
  reads have failed.  For a position other than zero the source first reads one character at
  the start of the file, which reads the first block, and then seeks.
\<close>

definition openStream :: "nat \<Rightarrow> fileinfo \<Rightarrow> nat \<Rightarrow> QTextStream \<times> bool" where
  "openStream bufferSize f byteIndex =
     (let seen0 = (if byteIndex \<noteq> 0 then fst (readData f False 0 bufferSize) else False);
          d = deliver bufferSize f seen0 byteIndex
      in (\<lparr>ts_buf = fst d, ts_pos = byteIndex, ts_devFail = fst (snd d), ts_status = False\<rparr>,
          snd (snd d)))"

section \<open>The scan queue\<close>

text \<open>
  \<^verbatim>\<open>m_docsToScan\<close> is a map ordered by folder id; \<open>qmap_modify\<close> applies \<open>g\<close> to the queue
  of a key, which starts empty when the key is new.
\<close>

fun qmap_modify ::
  "int \<Rightarrow> (DocumentInfo list \<Rightarrow> DocumentInfo list) \<Rightarrow> (int \<times> DocumentInfo list) list
     \<Rightarrow> (int \<times> DocumentInfo list) list" where
  "qmap_modify k g [] = [(k, g [])]"
| "qmap_modify k g ((k', q) # rest) =
     (if k = k' then (k', g q) # rest
      else if k < k' then (k, g []) # (k', q) # rest
      else (k', q) # qmap_modify k g rest)"

text \<open>
  \<^verbatim>\<open>dequeueDocument\<close>; \<open>None\<close> where the source asserts that the map and the first queue are
  not empty.
\<close>

definition dequeueDocument :: "sys \<Rightarrow> (DocumentInfo \<times> sys) option" where
  "dequeueDocument st =
     (case m_docsToScan st of
        [] \<Rightarrow> None
      | (firstKey, queue) # rest \<Rightarrow>
          (case queue of
             [] \<Rightarrow> None
           | result # queue' \<Rightarrow>
               Some (result,
                     st\<lparr>m_docsToScan := (if queue' = [] then rest else (firstKey, queue') # rest)\<rparr>)))"

definition countOfDocuments :: "int \<Rightarrow> sys \<Rightarrow> nat" where
  "countOfDocuments folder_id st =
     (case map_of (m_docsToScan st) folder_id of None \<Rightarrow> 0 | Some queue \<Rightarrow> length queue)"

definition enqueueDocumentInternal :: "DocumentInfo \<Rightarrow> bool \<Rightarrow> sys \<Rightarrow> sys" where
  "enqueueDocumentInternal info prepend st =
     st\<lparr>m_docsToScan :=
          qmap_modify (di_folder info) (\<lambda>q. if prepend then info # q else q @ [info])
            (m_docsToScan st)\<rparr>"

text \<open>\<^verbatim>\<open>selectDocument\<close>: id and time stay \<open>- 1\<close> when no row has the path.\<close>

definition selectDocument :: "string \<Rightarrow> sys \<Rightarrow> int \<times> int" where
  "selectDocument document_path st =
     (case filter (\<lambda>d. d_document_path d = document_path) (tb_documents (m_db st)) of
        [] \<Rightarrow> (- 1, - 1)
      | d # _ \<Rightarrow> (d_id d, d_document_time d))"

definition updateDocument :: "int \<Rightarrow> int \<Rightarrow> sys \<Rightarrow> bool \<times> sys" where
  "updateDocument document_id document_time st =
     (True, exec (DbWrite (UPDATE_DOCUMENT_TIME_SQL document_time document_id)) st)"

text \<open>\<^verbatim>\<open>addDocument\<close>: the id is \<^verbatim>\<open>q.lastInsertId()\<close>, the id of the row just added.\<close>

definition addDocument :: "int \<Rightarrow> int \<Rightarrow> string \<Rightarrow> sys \<Rightarrow> bool \<times> int \<times> sys" where
  "addDocument folder_id document_time document_path st =
     (let w = INSERT_DOCUMENTS_SQL folder_id document_time document_path
      in if write_ok w (m_db st)
         then (True, next_rowid (map d_id (tb_documents (m_db st))), exec (DbWrite w) st)
         else (False, - 1, st))"

text \<open>
  Modelled from the spec: the default value of the parameter \<^verbatim>\<open>maxChunks\<close> of
  \<^verbatim>\<open>chunkStream\<close>, declared in \<^verbatim>\<open>database.h\<close>, which is not part of the repository
  snapshot.  The spec calls the cap optional: the default is a value that disables it.
\<close>

definition default_maxChunks :: int where
  "default_maxChunks = - 1"

text \<open>
  \<^verbatim>\<open>scanQueue\<close>, first part: from \<^verbatim>\<open>selectDocument\<close> to the assertion that the document
  has an id.  \<open>Inl\<close> is \<^verbatim>\<open>return scheduleNext(folder_id, countForFolder)\<close>, with the list and
  the state reached; \<open>Inr\<close> carries \<open>document_id\<close> and \<open>existing_id\<close> on.
\<close>

definition scanQueue_document ::
  "fileinfo \<Rightarrow> DocumentInfo \<Rightarrow> int list \<Rightarrow> sys \<Rightarrow> (int list \<times> sys) + (int \<times> int \<times> int list \<times> sys)" where
  "scanQueue_document f info chunksToRemove st =
     (let folder_id = di_folder info;
          document_time = fl_mtime f;
          document_path = di_doc info;
          currentlyProcessing = di_currentlyProcessing info;
          existing_id = fst (selectDocument document_path st);
          existing_time = snd (selectDocument document_path st)
      in if existing_id \<noteq> - 1 \<and> \<not> currentlyProcessing \<and> document_time = existing_time
         then Inl (chunksToRemove, st)
         else
           (let rescan = (existing_id \<noteq> - 1 \<and> \<not> currentlyProcessing);
                chunksToRemove1 =
                  (if rescan then snd (getChunksByDocumentId existing_id chunksToRemove st)
                   else chunksToRemove);
                st1 = (if rescan then snd (removeChunksByDocumentId existing_id st) else st)
            in if currentlyProcessing then Inr (existing_id, existing_id, chunksToRemove1, st1)
               else if existing_id \<noteq> - 1
               then Inr (existing_id, existing_id, chunksToRemove1,
                         snd (updateDocument existing_id document_time st1))
               else
                 (let a = addDocument folder_id document_time document_path st1
                  in if \<not> fst a then Inl (chunksToRemove1, snd (snd a))
                     else Inr (fst (snd a), existing_id, chunksToRemove1, snd (snd a)))))"

text \<open>
  \<^verbatim>\<open>scanQueue\<close>, the branch \<^verbatim>\<open>info.isPdf()\<close>: one page is chunked, and the document goes
  back to the front of its queue while \<^verbatim>\<open>info.currentPage < doc.pageCount()\<close>.  A page
  index outside the document selects no text.  The progress counters are not part of the
  state; a document without pages, for which the source divides by the page count, is
  outside the model.
\<close>

definition scanQueue_pdf ::
  "fileinfo \<Rightarrow> DocumentInfo \<Rightarrow> nat \<Rightarrow> int \<Rightarrow> int list \<Rightarrow> sys \<Rightarrow> int list \<times> sys" where
  "scanQueue_pdf f info countForFolder document_id chunksToRemove st =
     (case fl_pdf f of
        None \<Rightarrow> (chunksToRemove, scheduleNext (di_folder info) countForFolder st)
      | Some doc \<Rightarrow>
          (let pageIndex = di_currentPage info;
               text = (if 0 \<le> pageIndex \<and> pageIndex < int (length (pdf_pages doc))
                       then pdf_pages doc ! nat pageIndex else []);
               st1 = snd (chunkStream (stringStream text 0) (di_folder info) document_id
                            (fl_name f) (pdf_title doc) (pdf_author doc) (pdf_subject doc)
                            (pdf_keywords doc) (pageIndex + 1) default_maxChunks st)
           in if di_currentPage info < int (length (pdf_pages doc))
              then (chunksToRemove,
                    scheduleNext (di_folder info) (countForFolder + 1)
                      (enqueueDocumentInternal
                         (info\<lparr>di_currentPage := di_currentPage info + 1,
                                di_currentlyProcessing := True\<rparr>) True st1))
              else (chunksToRemove, scheduleNext (di_folder info) countForFolder st1)))"

text \<open>
  \<^verbatim>\<open>scanQueue\<close>, the branch of the other files.  \<^verbatim>\<open>int pos = chunkStream(...)\<close> narrows
  the \<^verbatim>\<open>size_t\<close> to 32 bits.  \<^verbatim>\<open>file.binarySeen()\<close> is read only after \<^verbatim>\<open>chunkStream\<close>
  has returned \<^verbatim>\<open>-1\<close>, that is after the failing read has happened.  Seeking in the file
  succeeds.
\<close>

definition scanQueue_text ::
  "nat \<Rightarrow> fileinfo \<Rightarrow> DocumentInfo \<Rightarrow> nat \<Rightarrow> int \<Rightarrow> int \<Rightarrow> int list \<Rightarrow> sys \<Rightarrow> int list \<times> sys" where
  "scanQueue_text bufferSize f info countForFolder document_id existing_id chunksToRemove st =
     (if \<not> fl_openable f then (chunksToRemove, scheduleNext (di_folder info) countForFolder st)
      else
        (let bytes = length (fl_data f);
             byteIndex = di_currentPosition info;
             stream = fst (openStream bufferSize f byteIndex);
             r = chunkStream stream (di_folder info) document_id (fl_name f) [] [] [] [] (- 1)
                   100 st;
             binarySeen = (fst r = - 1 \<and> snd (openStream bufferSize f byteIndex));
             pos = sint (word_of_int (fst r) :: 32 word);
             st1 = snd r
         in if pos < 0
            then (if \<not> binarySeen
                  then (chunksToRemove, scheduleNext (di_folder info) countForFolder st1)
                  else (snd (getChunksByDocumentId existing_id chunksToRemove st1),
                        scheduleNext (di_folder info) countForFolder
                          (snd (removeChunksByDocumentId existing_id st1))))
            else if di_currentPosition info < bytes
            then (chunksToRemove,
                  scheduleNext (di_folder info) (countForFolder + 1)
                    (enqueueDocumentInternal
                       (info\<lparr>di_currentPosition := nat pos, di_currentlyProcessing := True\<rparr>)
                       True st1))
            else (chunksToRemove, scheduleNext (di_folder info) countForFolder st1)))"

text \<open>\<^verbatim>\<open>Database::scanQueue\<close>.\<close>

definition scanQueue :: "world \<Rightarrow> int list \<Rightarrow> sys \<Rightarrow> int list \<times> sys" where
  "scanQueue w chunksToRemove st0 =
     (case dequeueDocument st0 of
        None \<Rightarrow> (chunksToRemove, st0)
      | Some (info, st) \<Rightarrow>
          (let countForFolder = countOfDocuments (di_folder info) st;
               folder_id = di_folder info
           in case w_files w (di_doc info) of
                None \<Rightarrow> (chunksToRemove, scheduleNext folder_id countForFolder st)
              | Some f \<Rightarrow>
                  if \<not> fl_readable f
                  then (chunksToRemove, scheduleNext folder_id countForFolder st)
                  else
                    (case scanQueue_document f info chunksToRemove st of
                       Inl r \<Rightarrow> (fst r, scheduleNext folder_id countForFolder (snd r))
                     | Inr (document_id, existing_id, chunksToRemove1, st1) \<Rightarrow>
                         if fl_isPdf f
                         then scanQueue_pdf f info countForFolder document_id chunksToRemove1 st1
                         else scanQueue_text (w_bufferSize w) f info countForFolder document_id
                                existing_id chunksToRemove1 st1)))"

text \<open>
  The loop of \<^verbatim>\<open>scanQueueBatch\<close>; \<open>n\<close> is the number of times the test
  \<^verbatim>\<open>timer.elapsed() < 100\<close> succeeds.
\<close>

fun scanQueueBatch_loop :: "world \<Rightarrow> nat \<Rightarrow> int list \<Rightarrow> sys \<Rightarrow> int list \<times> sys" where
  "scanQueueBatch_loop w 0 chunksToRemove st = (chunksToRemove, st)"
| "scanQueueBatch_loop w (Suc n) chunksToRemove st =
     (if m_docsToScan st = [] then (chunksToRemove, st)
      else scanQueueBatch_loop w n (fst (scanQueue w chunksToRemove st))
             (snd (scanQueue w chunksToRemove st)))"

text \<open>\<^verbatim>\<open>Database::scanQueueBatch\<close>.\<close>

definition scanQueueBatch :: "world \<Rightarrow> nat \<Rightarrow> sys \<Rightarrow> sys" where
  "scanQueueBatch w n st =
     (let st1 = transaction st;
          r = scanQueueBatch_loop w n [] st1
      in applyRemovals (fst r) (snd r))"

text \<open>
  The events of scanning: statements that modify the tables and batches handed to the
  embedding backend.  \<open>scan_step st st'\<close>: the log of \<open>st'\<close> is the log of \<open>st\<close> followed by
  such events only.
\<close>

fun scan_event :: "event \<Rightarrow> bool" where
  "scan_event (DbWrite w) = True"
| "scan_event (GenerateAsyncEmbeddings batch) = True"
| "scan_event e = False"

definition scan_step :: "sys \<Rightarrow> sys \<Rightarrow> bool" where
  "scan_step st st' = (\<exists>ws. m_log st' = m_log st @ ws \<and> list_all scan_event ws)"

text \<open>
  A queued document without change: it comes fresh from the discovery of the folder, its
  file is there and readable, and the row of its path holds the modification time of the
  file.
\<close>

definition unchanged :: "world \<Rightarrow> sys \<Rightarrow> DocumentInfo \<Rightarrow> bool" where
  "unchanged w st info =
     (\<not> di_currentlyProcessing info
      \<and> (case w_files w (di_doc info) of
            None \<Rightarrow> False
          | Some f \<Rightarrow> fl_readable f
                      \<and> fst (selectDocument (di_doc info) st) \<noteq> - 1
                      \<and> snd (selectDocument (di_doc info) st) = fl_mtime f))"

definition all_unchanged :: "world \<Rightarrow> sys \<Rightarrow> bool" where
  "all_unchanged w st = list_all (\<lambda>q. list_all (unchanged w st) (snd q)) (m_docsToScan st)"

text \<open>
  \<open>send_step st st'\<close>: from \<open>st\<close> to \<open>st'\<close> the tables, the transaction and the index are
  the same, and the log has grown by batches handed to the embedding backend only.
\<close>

fun send_event :: "event \<Rightarrow> bool" where
  "send_event (GenerateAsyncEmbeddings batch) = True"
| "send_event e = False"

definition send_step :: "sys \<Rightarrow> sys \<Rightarrow> bool" where
  "send_step st st' =
     (m_db st' = m_db st \<and> m_tx st' = m_tx st \<and> m_embeddings st' = m_embeddings st
      \<and> (\<exists>ws. m_log st' = m_log st @ ws \<and> list_all send_event ws))"

text \<open>
  A small world for the examples: one text file \<^verbatim>\<open>/d/b.txt\<close> in folder 1, queued for
  scanning, and a stream that reads three bytes at a time; a state in which the file is
  new, and one in which it has been indexed at time 7 with one embedded chunk.
\<close>

definition text_file :: "int \<Rightarrow> string \<Rightarrow> fileinfo" where
  "text_file mtime data =
     \<lparr>fl_readable = True, fl_mtime = mtime, fl_name = ''b.txt'', fl_isPdf = False,
      fl_pdf = None, fl_openable = True, fl_data = data, fl_readError = None\<rparr>"

definition world_with :: "fileinfo \<Rightarrow> world" where
  "world_with f =
     \<lparr>w_files = (\<lambda>p. if p = ''/d/b.txt'' then Some f else None), w_bufferSize = 3\<rparr>"

definition queued :: "(int \<times> DocumentInfo list) list" where
  "queued = [(1, [\<lparr>di_folder = 1, di_doc = ''/d/b.txt'', di_currentPage = 0,
                   di_currentPosition = 0, di_currentlyProcessing = False\<rparr>])]"

definition st_new :: sys where
  "st_new =
     \<lparr>m_db = \<lparr>tb_chunks = [], tb_chunks_seq = 0, tb_collections = [], tb_folders = [],
              tb_collection_items = [], tb_documents = []\<rparr>,
      m_tx = None, m_chunkSize = 2, m_chunkList = [], m_docsToScan = queued,
      m_embeddings = \<lparr>e_dimension = 2, e_loaded = True, e_entries = [], e_file = None\<rparr>,
      m_log = []\<rparr>"

definition st_indexed :: sys where
  "st_indexed =
     \<lparr>m_db = \<lparr>tb_chunks = [\<lparr>c_id = 1, c_document_id = 1, c_chunk_text = ''ab'',
                            c_file = ''b.txt'', c_title = [], c_author = [], c_subject = [],
                            c_keywords = [], c_page = - 1, c_line_from = - 1, c_line_to = - 1,
                            c_words = 1, c_tokens = 0, c_has_embedding = True\<rparr>],
              tb_chunks_seq = 1, tb_collections = [], tb_folders = [],
              tb_collection_items = [],
              tb_documents = [\<lparr>d_id = 1, d_folder_id = 1, d_document_time = 7,
                               d_document_path = ''/d/b.txt''\<rparr>]\<rparr>,
      m_tx = None, m_chunkSize = 2, m_chunkList = [], m_docsToScan = queued,
      m_embeddings = \<lparr>e_dimension = 2, e_loaded = True, e_entries = [(1, [1, 0])],
                      e_file = Some [(1, [1, 0])]\<rparr>,
      m_log = []\<rparr>"

text \<open>
  What claim C6 says of the removals, read on the events of a batch: no removal from the
  index comes before the commit.
\<close>

fun removals_after_commit :: "event list \<Rightarrow> bool" where
  "removals_after_commit [] = True"
| "removals_after_commit (TxCommit # es) = True"
| "removals_after_commit (IndexRemove label # es) = False"
| "removals_after_commit (e # es) = removals_after_commit es"

section \<open>Properties of the chunker\<close>

lemma chunk_chars_snoc: "chunk_chars (ws @ [w]) = chunk_chars ws + int (length w) + 1"
  by (simp add: chunk_chars_def)

lemma chunk_chars_butlast_le:
  "ws \<noteq> [] \<Longrightarrow> chunk_chars (butlast ws) \<le> chunk_chars ws"
  by (induction ws rule: rev_induct) (auto simp: chunk_chars_snoc)

lemma under_budget_before_last_under: "ws \<noteq> [] \<Longrightarrow> chunk_chars ws < B \<Longrightarrow> under_budget_before_last B ws"
  using chunk_chars_butlast_le [of ws] by (auto simp: under_budget_before_last_def)

lemma under_budget_before_last_snoc: "ws = [] \<or> chunk_chars ws < B \<Longrightarrow> under_budget_before_last B (ws @ [w])"
  by (auto simp: under_budget_before_last_def)

lemma under_budget_before_last_single: "under_budget_before_last B [w]"
  by (simp add: under_budget_before_last_def)

lemma loop_budget:
  assumes "f = (\<lambda>ws acc. acc @ [ws])"
      and "charCount = sum_list (map (\<lambda>w. int (length w)) ws)"
      and "ws = [] \<or> chunk_chars ws < B"
      and "\<forall>c \<in> set acc. under_budget_before_last B c"
  shows "\<forall>c \<in> set (snd (chunkStream_loop f B maxChunks stream charCount ws k acc)).
           under_budget_before_last B c"
  using assms
proof (induction f B maxChunks stream charCount ws k acc rule: chunkStream_loop.induct)
  case (1 f B maxChunks stream charCount ws k acc)
  note f = "1.prems"(1)
  show ?case
  proof (cases "chunkStream_body f B maxChunks stream charCount ws k acc")
    case (Return r acc')
    then have "\<forall>c \<in> set acc'. under_budget_before_last B c"
      using "1.prems"
      by (auto simp: chunkStream_body_def Let_def chunk_chars_def under_budget_before_last_snoc
            under_budget_before_last_under under_budget_before_last_single split: if_splits)
    then show ?thesis using Return by (subst chunkStream_loop.simps) simp
  next
    case (Continue stream' charCount' ws' k' acc')
    have a: "charCount' = sum_list (map (\<lambda>w. int (length w)) ws')"
      using Continue "1.prems"(2) by (auto simp: chunkStream_body_def Let_def split: if_splits)
    have b: "ws' = [] \<or> chunk_chars ws' < B"
      using Continue "1.prems"(2) by (auto simp: chunkStream_body_def Let_def chunk_chars_def split: if_splits)
    have c: "\<forall>c \<in> set acc'. under_budget_before_last B c"
      using Continue "1.prems"
      by (auto simp: chunkStream_body_def Let_def chunk_chars_def under_budget_before_last_snoc
            under_budget_before_last_under under_budget_before_last_single split: if_splits)
    show ?thesis using "1.IH" [OF Continue f a b c] Continue by (subst chunkStream_loop.simps) simp
  qed
qed

subsection \<open>A chunk is closed when it reaches the budget or the stream ends\<close>

lemma readWord_consumes:
  "ts_pos (snd (readWord s)) + length (ts_buf (snd (readWord s))) = ts_pos s + length (ts_buf s)"
proof -
  let ?b = "ts_buf s"
  let ?rest = "dropWhile isSpace ?b"
  have a: "length (takeWhile isSpace ?b) + length ?rest = length ?b"
    by (metis length_append takeWhile_dropWhile_id)
  have b: "length (takeWhile (\<lambda>c. \<not> isSpace c) ?rest) + length (dropWhile (\<lambda>c. \<not> isSpace c) ?rest)
             = length ?rest"
    by (metis length_append takeWhile_dropWhile_id)
  show ?thesis
  proof (cases "?rest = []")
    case True
    then show ?thesis using a by (simp add: readWord_def Let_def del: dropWhile_eq_Nil_conv)
  next
    case False
    then show ?thesis using a b by (simp add: readWord_def Let_def del: dropWhile_eq_Nil_conv)
  qed
qed

lemma closed_on_budget_snoc:
  "\<forall>c \<in> set acc. B \<le> chunk_chars c \<Longrightarrow> chunk_chars ws < B \<longrightarrow> r = e
   \<Longrightarrow> closed_on_budget B e (r, acc @ [ws])"
  by (simp add: closed_on_budget_def)

lemma closed_on_budget_all:
  assumes "\<forall>c \<in> set acc. B \<le> chunk_chars c"
  shows "closed_on_budget B e (r, acc)"
proof -
  have "\<forall>c \<in> set (butlast acc). B \<le> chunk_chars c"
    using assms by (meson in_set_butlastD)
  moreover have "acc \<noteq> [] \<Longrightarrow> B \<le> chunk_chars (last acc)"
    using assms by simp
  ultimately show ?thesis by (auto simp: closed_on_budget_def)
qed

lemma loop_closing:
  assumes "f = (\<lambda>ws acc. acc @ [ws])"
      and "charCount = sum_list (map (\<lambda>w. int (length w)) ws)"
      and "\<forall>c \<in> set acc. B \<le> chunk_chars c"
  shows "closed_on_budget B (int (ts_pos stream + length (ts_buf stream)))
           (chunkStream_loop f B maxChunks stream charCount ws k acc)"
  using assms
proof (induction f B maxChunks stream charCount ws k acc rule: chunkStream_loop.induct)
  case (1 f B maxChunks stream charCount ws k acc)
  note f = "1.prems"(1)
  let ?s1 = "snd (readWord stream)"
  let ?e = "int (ts_pos stream + length (ts_buf stream))"
  have e: "int (ts_pos ?s1 + length (ts_buf ?s1)) = ?e"
    by (simp only: readWord_consumes)
  show ?case
  proof (cases "chunkStream_body f B maxChunks stream charCount ws k acc")
    case (Return r acc')
    have "closed_on_budget B ?e (r, acc')"
    proof (cases "flushed_words B stream charCount ws")
      case None
      then have "acc' = acc"
        using Return f by (auto simp: chunkStream_body_def flushed_words_def Let_def split: if_splits)
      then show ?thesis using "1.prems"(3) by (simp add: closed_on_budget_all)
    next
      case (Some ws1)
      then have acc': "acc' = acc @ [ws1]"
        using Return f by (auto simp: chunkStream_body_def flushed_words_def Let_def split: if_splits)
      have "chunk_chars ws1 < B \<longrightarrow> r = ?e"
      proof
        assume u: "chunk_chars ws1 < B"
        have "ts_status ?s1 \<and> atEnd ?s1 \<and> r = int (ts_pos ?s1)"
          using Return Some u "1.prems"(2) f
          by (auto simp: chunkStream_body_def flushed_words_def Let_def chunk_chars_def
                split: if_splits)
        then have "r = int (ts_pos ?s1 + length (ts_buf ?s1))"
          by (simp add: atEnd_def)
        then show "r = ?e" using e by simp
      qed
      then show ?thesis unfolding acc' using "1.prems"(3) by (rule closed_on_budget_snoc [rotated])
    qed
    then show ?thesis using Return by (simp add: chunkStream_loop_Return)
  next
    case (Continue stream' charCount' ws' k' acc')
    have s': "stream' = ?s1"
      using chunkStream_body_Continue [OF Continue] by simp
    have a: "charCount' = sum_list (map (\<lambda>w. int (length w)) ws')"
      using Continue "1.prems"(2) by (auto simp: chunkStream_body_def Let_def split: if_splits)
    have c: "\<forall>c \<in> set acc'. B \<le> chunk_chars c"
      using Continue "1.prems"(2,3) f
      by (auto simp: chunkStream_body_def Let_def chunk_chars_def split: if_splits)
    show ?thesis
      using "1.IH" [OF Continue f a c] Continue e s' by (simp add: chunkStream_loop_Continue)
  qed
qed

subsection \<open>The flushes of a call do not depend on what a flush does\<close>

lemma body_Return_shape:
  "chunkStream_body g B m s cc ws k a = Return r a'
   \<Longrightarrow> chunkStream_body f B m s cc ws k st = Return r (apply_flush f (flushed_words B s cc ws) st)"
  by (auto simp: chunkStream_body_def flushed_words_def Let_def split: if_splits)

lemma body_Continue_shape:
  "chunkStream_body g B m s cc ws k a = Continue s' cc' ws' k' a'
   \<Longrightarrow> chunkStream_body f B m s cc ws k st = Continue s' cc' ws' k' (apply_flush f (flushed_words B s cc ws) st)"
  by (auto simp: chunkStream_body_def flushed_words_def Let_def split: if_splits)

lemma fold_record: "fold (\<lambda>ws acc. acc @ [ws]) cs acc = acc @ cs"
  by (induction cs arbitrary: acc) auto

lemma loop_record_acc:
  fixes g :: "string list \<Rightarrow> 'd \<Rightarrow> 'd" and a :: 'd
  shows "\<forall>acc. chunkStream_loop (\<lambda>ws acc. acc @ [ws]) B m s cc ws k acc
           = (fst (chunkStream_loop (\<lambda>ws acc. acc @ [ws]) B m s cc ws k []),
              acc @ snd (chunkStream_loop (\<lambda>ws acc. acc @ [ws]) B m s cc ws k []))"
proof (induction g B m s cc ws k a rule: chunkStream_loop.induct)
  case (1 g B m s cc ws k a)
  let ?R = "(\<lambda>ws acc. acc @ [ws]) :: string list \<Rightarrow> string list list \<Rightarrow> string list list"
  let ?fw = "flushed_words B s cc ws"
  show ?case
  proof (cases "chunkStream_body g B m s cc ws k a")
    case (Return r a')
    show ?thesis
      by (cases ?fw)
         (simp_all add: chunkStream_loop_Return [OF body_Return_shape [OF Return]])
  next
    case (Continue s' cc' ws' k' a')
    note IH = "1.IH" [OF Continue, rule_format]
    note step = chunkStream_loop_Continue [OF body_Continue_shape [OF Continue]]
    show ?thesis
    proof
      fix acc
      let ?next = "chunkStream_loop ?R B m s' cc' ws' k'"
      have i1: "fst (?next X) = fst (?next [])" "snd (?next X) = X @ snd (?next [])"
        if "X \<noteq> []" for X
        using IH [of X] by (metis fst_conv, metis snd_conv)
      show "chunkStream_loop ?R B m s cc ws k acc
           = (fst (chunkStream_loop ?R B m s cc ws k []), acc @ snd (chunkStream_loop ?R B m s cc ws k []))"
        unfolding step
        by (cases ?fw; cases "acc = []") (simp_all add: prod_eq_iff i1)
    qed
  qed
qed

lemma loop_factor:
  fixes g :: "string list \<Rightarrow> 'd \<Rightarrow> 'd" and a :: 'd
  shows "\<forall>(f :: string list \<Rightarrow> 's \<Rightarrow> 's) st. chunkStream_loop f B m s cc ws k st
           = (fst (chunkStream_loop (\<lambda>ws acc. acc @ [ws]) B m s cc ws k []),
              fold f (snd (chunkStream_loop (\<lambda>ws acc. acc @ [ws]) B m s cc ws k [])) st)"
proof (induction g B m s cc ws k a rule: chunkStream_loop.induct)
  case (1 g B m s cc ws k a)
  let ?R = "(\<lambda>ws acc. acc @ [ws]) :: string list \<Rightarrow> string list list \<Rightarrow> string list list"
  let ?fw = "flushed_words B s cc ws"
  show ?case
  proof (cases "chunkStream_body g B m s cc ws k a")
    case (Return r a')
    show ?thesis
      by (cases ?fw)
         (simp_all add: chunkStream_loop_Return [OF body_Return_shape [OF Return]])
  next
    case (Continue s' cc' ws' k' a')
    note IH = "1.IH" [OF Continue, rule_format]
    note step = chunkStream_loop_Continue [OF body_Continue_shape [OF Continue]]
    show ?thesis
    proof (intro allI)
      fix f :: "string list \<Rightarrow> 's \<Rightarrow> 's" and st :: 's
      let ?next = "chunkStream_loop ?R B m s' cc' ws' k'"
      have i1: "chunkStream_loop f B m s' cc' ws' k' (apply_flush f ?fw st)
                  = (fst (?next []), fold f (snd (?next [])) (apply_flush f ?fw st))"
        by (rule IH)
      have i2: "fst (?next X) = fst (?next [])" "snd (?next X) = X @ snd (?next [])"
        if "X \<noteq> []" for X
        using loop_record_acc [rule_format, of B m s' cc' ws' k' X]
        by (metis fst_conv, metis snd_conv)
      show "chunkStream_loop f B m s cc ws k st
           = (fst (chunkStream_loop ?R B m s cc ws k []), fold f (snd (chunkStream_loop ?R B m s cc ws k [])) st)"
        unfolding step i1
        by (cases ?fw) (simp_all add: i2)
    qed
  qed
qed

subsection \<open>Stopping at \<^verbatim>\<open>maxChunks\<close> and resuming\<close>

lemma on_text_stringStream: "on_text text (stringStream text p)"
  by (simp add: on_text_def stringStream_def)

lemma on_text_reopen:
  "on_text text s \<Longrightarrow> \<not> ts_status s \<Longrightarrow> stringStream text (ts_pos s) = s"
  by (simp add: on_text_def stringStream_def)

lemma readWord_on_text:
  assumes "on_text text s"
  shows "on_text text (snd (readWord s))"
proof -
  let ?b = "ts_buf s"
  let ?rest = "dropWhile isSpace ?b"
  have b: "?b = drop (ts_pos s) text" and d: "\<not> ts_devFail s"
    using assms by (simp_all add: on_text_def)
  have r: "?rest = drop (ts_pos s + length (takeWhile isSpace ?b)) text"
    by (metis add.commute b drop_drop dropWhile_eq_drop)
  show ?thesis
  proof (cases "?rest = []")
    case True
    then show ?thesis using r d
      by (simp add: readWord_def Let_def on_text_def del: dropWhile_eq_Nil_conv)
  next
    case False
    have "dropWhile (\<lambda>c. \<not> isSpace c) ?rest
            = drop (length (takeWhile (\<lambda>c. \<not> isSpace c) ?rest)) ?rest"
      by (rule dropWhile_eq_drop)
    also have "\<dots> = drop (ts_pos s + length (takeWhile isSpace ?b)
                          + length (takeWhile (\<lambda>c. \<not> isSpace c) ?rest)) text"
      by (subst r) (simp add: add.commute)
    finally show ?thesis using False d
      by (simp add: readWord_def Let_def on_text_def del: dropWhile_eq_Nil_conv)
  qed
qed

lemma readWord_status_buf: "ts_status (snd (readWord s)) \<Longrightarrow> \<not> ts_status s \<Longrightarrow> ts_buf (snd (readWord s)) = []"
  by (auto simp: readWord_def Let_def split: if_splits)

lemma loop_uncapped_count:
  assumes "u \<le> 0"
  shows "\<forall>k'. chunkStream_loop f B u s cc ws k st = chunkStream_loop f B u s cc ws k' st"
  using assms
proof (induction f B u s cc ws k st rule: chunkStream_loop.induct)
  case (1 f B u s cc ws k st)
  show ?case
  proof
    fix k'
    show "chunkStream_loop f B u s cc ws k st = chunkStream_loop f B u s cc ws k' st"
    proof (cases "chunkStream_body f B u s cc ws k st")
      case (Return r st')
      then have "chunkStream_body f B u s cc ws k' st = Return r st'"
        using "1.prems" by (auto simp: chunkStream_body_def Let_def split: if_splits)
      then show ?thesis using Return by (simp add: chunkStream_loop_Return)
    next
      case (Continue s' cc' ws' k2 st')
      then obtain k2' where "chunkStream_body f B u s cc ws k' st = Continue s' cc' ws' k2' st'"
        using "1.prems" by (auto simp: chunkStream_body_def Let_def split: if_splits)
      then show ?thesis using Continue "1.IH" [OF Continue "1.prems"]
        by (simp add: chunkStream_loop_Continue)
    qed
  qed
qed

lemma loop_exhausted:
  assumes "ts_buf s = []" "\<not> ts_devFail s"
  shows "chunkStream_loop f B m s 0 [] k st = (int (ts_pos s), st)"
proof -
  have "chunkStream_body f B m s 0 [] k st = Return (int (ts_pos s)) st"
    using assms by (simp add: chunkStream_body_def readWord_def atEnd_def Let_def)
  then show ?thesis by (rule chunkStream_loop_Return)
qed

lemma loop_resume:
  assumes "on_text text s" "\<not> ts_status s" "u \<le> 0" "m \<le> 0 \<or> k < m"
      and "chunkStream_loop f B m s cc ws k st = (p, st1)"
  shows "0 \<le> p \<and> chunkStream_loop f B u (stringStream text (nat p)) 0 [] 0 st1
                  = chunkStream_loop f B u s cc ws k st"
  using assms
proof (induction f B m s cc ws k st rule: chunkStream_loop.induct)
  case (1 f B m s cc ws k st)
  let ?s1 = "snd (readWord s)"
  have ot: "on_text text ?s1" using "1.prems"(1) by (rule readWord_on_text)
  show ?case
  proof (cases "chunkStream_body f B m s cc ws k st")
    case (Return r st')
    then have eq: "p = r" "st1 = st'"
      using "1.prems"(5) by (simp_all add: chunkStream_loop_Return)
    have nofail: "\<not> (ts_status ?s1 \<and> \<not> atEnd ?s1)"
      using ot readWord_status_buf [of s] "1.prems"(2) by (auto simp: atEnd_def on_text_def)
    have r: "r = int (ts_pos ?s1)"
      using Return nofail by (auto simp: chunkStream_body_def Let_def split: if_splits)
    show ?thesis
    proof (cases "ts_status ?s1")
      case True
      then have "chunkStream_body f B u s cc ws k st = Return r st'"
        using Return by (auto simp: chunkStream_body_def Let_def split: if_splits)
      then have one: "chunkStream_loop f B u s cc ws k st = (r, st')"
        by (rule chunkStream_loop_Return)
      have "ts_buf ?s1 = []" using True "1.prems"(2) by (rule readWord_status_buf)
      then have "drop (ts_pos ?s1) text = []" using ot by (simp add: on_text_def)
      then have "chunkStream_loop f B u (stringStream text (ts_pos ?s1)) 0 [] 0 st'
                   = (int (ts_pos ?s1), st')"
        using loop_exhausted [of "stringStream text (ts_pos ?s1)" f B u 0 st']
        by (simp add: stringStream_def)
      then show ?thesis using one r eq by simp
    next
      case False
      then have re: "stringStream text (ts_pos ?s1) = ?s1"
        using ot by (simp add: on_text_reopen)
      from False Return "1.prems"(4) obtain k2 where
        "chunkStream_body f B u s cc ws k st = Continue ?s1 0 [] k2 st'"
        using "1.prems"(3) by (auto simp: chunkStream_body_def Let_def split: if_splits)
      then have "chunkStream_loop f B u s cc ws k st = chunkStream_loop f B u ?s1 0 [] k2 st'"
        by (rule chunkStream_loop_Continue)
      also have "\<dots> = chunkStream_loop f B u ?s1 0 [] 0 st'"
        by (rule loop_uncapped_count [OF "1.prems"(3), rule_format])
      finally show ?thesis using r eq re by simp
    qed
  next
    case (Continue s' cc' ws' k' st')
    have s': "s' = ?s1" "\<not> ts_status s'"
      using chunkStream_body_Continue [OF Continue] by auto
    have k': "m \<le> 0 \<or> k' < m"
      using Continue "1.prems"(4) by (auto simp: chunkStream_body_def Let_def split: if_splits)
    have run: "chunkStream_loop f B m s' cc' ws' k' st' = (p, st1)"
      using "1.prems"(5) Continue by (simp add: chunkStream_loop_Continue)
    from Continue obtain k2 where
      "chunkStream_body f B u s cc ws k st = Continue s' cc' ws' k2 st'"
      using "1.prems"(3) by (auto simp: chunkStream_body_def Let_def split: if_splits)
    then have "chunkStream_loop f B u s cc ws k st = chunkStream_loop f B u s' cc' ws' k2 st'"
      by (rule chunkStream_loop_Continue)
    also have "\<dots> = chunkStream_loop f B u s' cc' ws' k' st'"
      by (rule loop_uncapped_count [OF "1.prems"(3), rule_format])
    finally show ?thesis
      using "1.IH" [OF Continue _ s'(2) "1.prems"(3) k' run] ot s'(1) by simp
  qed
qed


subsection \<open>The claims about the chunker\<close>

lemma m_chunkSize_flushChunk: "m_chunkSize (flushChunk m ws st) = m_chunkSize st"
  by (simp add: flushChunk_def addChunk_def appendChunk_def sendChunkList_def exec_def Let_def)

lemma m_chunkSize_fold_flushChunk: "m_chunkSize (fold (flushChunk m) cs st) = m_chunkSize st"
  by (induction cs arbitrary: st) (simp_all add: m_chunkSize_flushChunk)

lemma chunkStream_factor:
  "chunkStream stream folder_id document_id file title author subject keywords page maxChunks st
     = (fst (chunkStream_chunks (m_chunkSize st) maxChunks stream),
        fold (flushChunk \<lparr>cm_folder_id = folder_id, cm_document_id = document_id, cm_file = file,
                           cm_title = title, cm_author = author, cm_subject = subject,
                           cm_keywords = keywords, cm_page = page\<rparr>)
             (snd (chunkStream_chunks (m_chunkSize st) maxChunks stream)) st)"
  unfolding chunkStream_def chunkStream_chunks_def
  by (rule loop_factor [rule_format])

text \<open>
  Claim C1 as the spec states it: every chunk satisfies
  \<open>sum(word lengths) + (wordCount - 1) \<le> B\<close> or contains exactly one word.  The loop tests the
  budget after it has appended the word, so the word that reaches the budget is part of the
  chunk: with budget 10 the text of the spec's own scenario gives the two-word chunk
  \<open>gamma delta\<close> of 11 characters.
\<close>

theorem chunk_budget_counterexample:
  "\<not> (\<forall>ws \<in> set (snd (chunkStream_chunks 10 0 (stringStream ''alpha beta gamma delta epsilon'' 0))).
        chunk_chars ws \<le> 10 \<or> length ws = 1)"
proof -
  have ev: "snd (chunkStream_chunks 10 0 (stringStream ''alpha beta gamma delta epsilon'' 0))
              = [[''alpha'', ''beta''], [''gamma'', ''delta''], [''epsilon'']]"
    by code_simp
  show ?thesis unfolding ev by (simp add: chunk_chars_def)
qed

text \<open>
  Claim C1, amended: every chunk flushed by \<^verbatim>\<open>chunkStream\<close>, for every stream, budget and
  \<^verbatim>\<open>maxChunks\<close>, is non-empty and either has exactly one word or was strictly under the
  budget before its last word was added; a chunk is closed right after the word with which
  it reaches the budget, and may exceed the budget by that word.  A chunk is closed under
  the budget only at the end of the stream: it is then the last chunk of the call, and the
  call returns the position of the end of the stream.
\<close>

theorem chunk_under_budget_before_last_word:
  assumes "i < length (snd (chunkStream_chunks B maxChunks stream))"
  shows "snd (chunkStream_chunks B maxChunks stream) ! i \<noteq> []
       \<and> (length (snd (chunkStream_chunks B maxChunks stream) ! i) = 1
          \<or> chunk_chars (butlast (snd (chunkStream_chunks B maxChunks stream) ! i)) < B)
       \<and> (chunk_chars (snd (chunkStream_chunks B maxChunks stream) ! i) < B
          \<longrightarrow> Suc i = length (snd (chunkStream_chunks B maxChunks stream))
              \<and> fst (chunkStream_chunks B maxChunks stream)
                  = int (ts_pos stream + length (ts_buf stream)))"
proof -
  let ?res = "chunkStream_chunks B maxChunks stream"
  let ?cs = "snd ?res"
  have "\<forall>c \<in> set (snd (chunkStream_loop (\<lambda>ws acc. acc @ [ws]) B maxChunks stream 0 [] 0 [])).
          under_budget_before_last B c"
    by (rule loop_budget) simp_all
  then have "under_budget_before_last B (?cs ! i)"
    using assms by (simp add: chunkStream_chunks_def)
  then have one: "?cs ! i \<noteq> [] \<and> (length (?cs ! i) = 1 \<or> chunk_chars (butlast (?cs ! i)) < B)"
    by (simp add: under_budget_before_last_def)
  have "closed_on_budget B (int (ts_pos stream + length (ts_buf stream)))
          (chunkStream_loop (\<lambda>ws acc. acc @ [ws]) B maxChunks stream 0 [] 0 [])"
    by (rule loop_closing) simp_all
  then have cl: "\<forall>c \<in> set (butlast ?cs). B \<le> chunk_chars c"
       and en: "?cs \<noteq> [] \<and> chunk_chars (last ?cs) < B
                \<longrightarrow> fst ?res = int (ts_pos stream + length (ts_buf stream))"
    by (simp_all add: closed_on_budget_def chunkStream_chunks_def)
  have two: "Suc i = length ?cs \<and> fst ?res = int (ts_pos stream + length (ts_buf stream))"
    if u: "chunk_chars (?cs ! i) < B"
  proof (cases "Suc i = length ?cs")
    case True
    then have ne: "?cs \<noteq> []" by auto
    have "length ?cs - 1 = i" using True by arith
    then have "last ?cs = ?cs ! i" using last_conv_nth [OF ne] by simp
    then show ?thesis using en u True ne by simp
  next
    case False
    then have "i < length (butlast ?cs)" using assms by simp
    then have "?cs ! i \<in> set (butlast ?cs)"
      by (metis nth_butlast nth_mem)
    then show ?thesis using cl u by auto
  qed
  show ?thesis using one two by blast
qed

theorem chunk_under_budget_before_last_word_witness:
  "snd (chunkStream_chunks 10 0 (stringStream ''alpha beta gamma delta epsilon'' 0)) ! 1
     = [''gamma'', ''delta'']
   \<and> chunk_chars (butlast [''gamma'', ''delta'']) < 10
   \<and> \<not> chunk_chars [''gamma'', ''delta''] \<le> 10
   \<and> snd (chunkStream_chunks 10 0 (stringStream ''alpha beta gamma delta epsilon'' 0)) ! 2
     = [''epsilon'']
   \<and> chunk_chars [''epsilon''] < 10
   \<and> Suc 2 = length (snd (chunkStream_chunks 10 0 (stringStream ''alpha beta gamma delta epsilon'' 0)))
   \<and> fst (chunkStream_chunks 10 0 (stringStream ''alpha beta gamma delta epsilon'' 0)) = 30"
proof -
  let ?res = "chunkStream_chunks 10 0 (stringStream ''alpha beta gamma delta epsilon'' 0)"
  have ev: "snd ?res = [[''alpha'', ''beta''], [''gamma'', ''delta''], [''epsilon'']]"
    by code_simp
  have l1: "1 < length (snd ?res)" and l2: "2 < length (snd ?res)"
    unfolding ev by simp_all
  have under: "chunk_chars (snd ?res ! 2) < 10"
    unfolding ev by (simp add: chunk_chars_def)
  from chunk_under_budget_before_last_word [OF l1] chunk_under_budget_before_last_word [OF l2] under
  have "chunk_chars (butlast (snd ?res ! 1)) < 10"
    and "Suc 2 = length (snd ?res)"
    and "fst ?res = int (ts_pos (stringStream ''alpha beta gamma delta epsilon'' 0)
                         + length (ts_buf (stringStream ''alpha beta gamma delta epsilon'' 0)))"
    unfolding ev by (simp_all add: chunk_chars_def)
  then show ?thesis unfolding ev by (simp add: chunk_chars_def stringStream_def)
qed

text \<open>
  Claim C8: for every text, budget and \<^verbatim>\<open>maxChunks\<close>, a call that stops after
  \<^verbatim>\<open>maxChunks\<close> chunks followed by a call without cap (\<open>u \<le> 0\<close>) on a stream positioned
  where the first call returned produces the chunks of a single call without cap, in the
  same order, and ends at the same position.
\<close>

theorem chunkStream_resume:
  assumes "u \<le> 0"
      and "chunkStream_chunks B maxChunks (stringStream text start) = (p, cs1)"
  shows "0 \<le> p
         \<and> chunkStream_chunks B u (stringStream text start)
             = (fst (chunkStream_chunks B u (stringStream text (nat p))),
                cs1 @ snd (chunkStream_chunks B u (stringStream text (nat p))))"
proof -
  let ?R = "(\<lambda>ws acc. acc @ [ws]) :: string list \<Rightarrow> string list list \<Rightarrow> string list list"
  have r: "0 \<le> p \<and> chunkStream_loop ?R B u (stringStream text (nat p)) 0 [] 0 cs1
                    = chunkStream_loop ?R B u (stringStream text start) 0 [] 0 []"
    using assms(2) unfolding chunkStream_chunks_def
    by (intro loop_resume [where m = maxChunks] on_text_stringStream assms(1))
       (auto simp: stringStream_def)
  then show ?thesis
    unfolding chunkStream_chunks_def
    using loop_record_acc [rule_format, of B u "stringStream text (nat p)" 0 "[]" 0 cs1]
    by simp
qed

theorem chunkStream_resume_witness:
  "chunkStream_chunks 10 2 (stringStream ''alpha beta gamma delta epsilon'' 0)
     = (22, [[''alpha'', ''beta''], [''gamma'', ''delta'']])
   \<and> chunkStream_chunks 10 0 (stringStream ''alpha beta gamma delta epsilon'' 22)
     = (30, [[''epsilon'']])
   \<and> chunkStream_chunks 10 0 (stringStream ''alpha beta gamma delta epsilon'' 0)
     = (30, [[''alpha'', ''beta''], [''gamma'', ''delta'']] @ [[''epsilon'']])"
proof -
  have a: "chunkStream_chunks 10 2 (stringStream ''alpha beta gamma delta epsilon'' 0)
     = (22, [[''alpha'', ''beta''], [''gamma'', ''delta'']])"
    by code_simp
  have b: "chunkStream_chunks 10 0 (stringStream ''alpha beta gamma delta epsilon'' 22)
     = (30, [[''epsilon'']])"
    by code_simp
  have u: "(0::int) \<le> 0" by simp
  from chunkStream_resume [OF u a] a b show ?thesis by simp
qed

text \<open>
  The same on the state: the rows inserted, the batches sent and the pending chunk list
  are those of the single call.
\<close>

lemma chunkStream_resume_state:
  assumes "u \<le> 0"
      and "chunkStream (stringStream text start) folder_id document_id file title author subject
             keywords page maxChunks st = (p, st1)"
  shows "0 \<le> p
         \<and> chunkStream (stringStream text (nat p)) folder_id document_id file title author subject
              keywords page u st1
           = chunkStream (stringStream text start) folder_id document_id file title author subject
              keywords page u st"
proof -
  let ?f = "flushChunk \<lparr>cm_folder_id = folder_id, cm_document_id = document_id, cm_file = file,
                           cm_title = title, cm_author = author, cm_subject = subject,
                           cm_keywords = keywords, cm_page = page\<rparr>"
  have "st1 = fold ?f (snd (chunkStream_chunks (m_chunkSize st) maxChunks (stringStream text start))) st"
    using assms(2) by (simp add: chunkStream_factor)
  then have cs: "m_chunkSize st1 = m_chunkSize st"
    by (simp add: m_chunkSize_fold_flushChunk)
  show ?thesis
    using assms(2) unfolding chunkStream_def cs
    by (intro loop_resume [where m = maxChunks] on_text_stringStream assms(1))
       (auto simp: stringStream_def)
qed

section \<open>The size of the batches\<close>

lemma m_log_exec [simp]: "m_log (exec e st) = m_log st @ [e]"
  by (simp add: exec_def)

lemma m_chunkList_exec [simp]: "m_chunkList (exec e st) = m_chunkList st"
  by (cases e) (simp_all add: exec_def split: option.splits)

lemma batch_invariant_exec:
  "batch_invariant st \<Longrightarrow> (\<And>b. e = GenerateAsyncEmbeddings b \<Longrightarrow> int (length b) \<le> s_batchSize)
   \<Longrightarrow> batch_invariant (exec e st)"
  by (cases e) (simp_all add: batch_invariant_def)

lemma batch_invariant_sendChunkList:
  "int (length (m_chunkList st)) \<le> s_batchSize
   \<Longrightarrow> list_all (\<lambda>e. case e of GenerateAsyncEmbeddings batch \<Rightarrow> int (length batch) \<le> s_batchSize
                           | _ \<Rightarrow> True) (m_log st)
   \<Longrightarrow> batch_invariant (sendChunkList st)"
  by (simp add: batch_invariant_def sendChunkList_def s_batchSize_def)

lemma batch_invariant_appendChunk:
  "batch_invariant st \<Longrightarrow> batch_invariant (appendChunk c st)"
proof -
  assume a: "batch_invariant st"
  let ?st1 = "st\<lparr>m_chunkList := m_chunkList st @ [c]\<rparr>"
  show ?thesis
  proof (cases "int (length (m_chunkList ?st1)) \<ge> s_batchSize")
    case True
    have "batch_invariant (sendChunkList ?st1)"
      using a by (intro batch_invariant_sendChunkList) (simp_all add: batch_invariant_def)
    then show ?thesis using True by (simp add: appendChunk_def Let_def)
  next
    case False
    then show ?thesis using a by (simp add: appendChunk_def Let_def batch_invariant_def)
  qed
qed

lemma batch_invariant_scheduleNext:
  "batch_invariant st \<Longrightarrow> batch_invariant (scheduleNext folder_id n st)"
proof -
  assume a: "batch_invariant st"
  then have "batch_invariant (sendChunkList st)"
    by (intro batch_invariant_sendChunkList) (simp_all add: batch_invariant_def)
  then show ?thesis using a by (simp add: scheduleNext_def)
qed

lemma batch_invariant_loop:
  "batch_invariant st \<Longrightarrow> batch_invariant (scheduleUncompletedEmbeddings_loop i chunkList st)"
proof (induction i chunkList st rule: scheduleUncompletedEmbeddings_loop.induct)
  case (1 i chunkList st)
  show ?case
  proof (cases "i < length chunkList")
    case True
    have "batch_invariant (exec (GenerateAsyncEmbeddings (mid chunkList i (nat s_batchSize))) st)"
      using "1.prems" by (intro batch_invariant_exec) (auto simp: mid_def s_batchSize_def)
    then show ?thesis using "1.IH" [OF True] True
      by (subst scheduleUncompletedEmbeddings_loop.simps) simp
  next
    case False
    then show ?thesis using "1.prems"
      by (subst scheduleUncompletedEmbeddings_loop.simps) simp
  qed
qed

lemma batch_invariant_scheduleUncompletedEmbeddings:
  "batch_invariant st \<Longrightarrow> batch_invariant (scheduleUncompletedEmbeddings folder_id st)"
  by (simp add: scheduleUncompletedEmbeddings_def Let_def batch_invariant_loop)

lemma batch_invariant_flushChunk:
  "batch_invariant st \<Longrightarrow> batch_invariant (flushChunk m ws st)"
  unfolding flushChunk_def Let_def addChunk_def
  by (auto intro!: batch_invariant_appendChunk batch_invariant_exec)

lemma batch_invariant_fold_flushChunk:
  "batch_invariant st \<Longrightarrow> batch_invariant (fold (flushChunk m) cs st)"
  by (induction cs arbitrary: st) (simp_all add: batch_invariant_flushChunk)

lemma batch_invariant_chunkStream:
  "batch_invariant st \<Longrightarrow>
   batch_invariant (snd (chunkStream stream folder_id document_id file title author subject
                           keywords page maxChunks st))"
  by (simp add: chunkStream_factor batch_invariant_fold_flushChunk)

lemma batch_invariant_batches:
  "batch_invariant st \<Longrightarrow> GenerateAsyncEmbeddings batch \<in> set (m_log st) \<Longrightarrow> length batch \<le> 100"
  by (auto simp: batch_invariant_def list_all_iff s_batchSize_def)

section \<open>Completed embedding batches: the index is flushed before the flags are committed\<close>

lemma m_log_fold_exec [simp]: "m_log (fold exec evs st) = m_log st @ evs"
  by (induction evs arbitrary: st) simp_all

lemma events_since_fold_exec [simp]: "events_since st (fold exec evs st) = evs"
  by (simp add: events_since_def)

lemma set_states_along_append:
  "set (states_along (a @ b) st) = set (states_along a st) \<union> set (states_along b (fold exec a st))"
proof (induction a arbitrary: st)
  case Nil
  show ?case by (cases b) auto
next
  case (Cons e a)
  then show ?case by auto
qed

lemma last_in_states_along: "fold exec evs s \<in> set (states_along evs s)"
  by (induction evs arbitrary: s) simp_all

lemma recoverable_iff: "recoverable s = embedded_have_vectors (durable_db s) (durable_index s)"
  by (simp add: recoverable_def crash_def)

lemma durable_IndexAdd [simp]:
  "durable_db (exec (IndexAdd l v) s) = durable_db s"
  "durable_index (exec (IndexAdd l v) s) = durable_index s"
  by (simp_all add: exec_def durable_db_def durable_index_def split: option.splits)

lemma durable_update_in_tx:
  "m_tx s \<noteq> None \<Longrightarrow> durable_db (exec (DbWrite w) s) = durable_db s"
  "durable_index (exec (DbWrite w) s) = durable_index s"
  "m_tx (exec (DbWrite w) s) = m_tx s"
  by (auto simp: exec_def durable_db_def durable_index_def split: option.splits)

lemma loop_events:
  "\<exists>evs. snd (handleEmbeddingsGenerated_loop es acc st) = fold exec evs st
         \<and> list_all (\<lambda>e. \<exists>l v. e = IndexAdd l v) evs
         \<and> fst (handleEmbeddingsGenerated_loop es acc st) = acc @ index_adds evs"
proof (induction es arbitrary: acc st)
  case Nil
  show ?case by (intro exI [of _ "[]"]) simp
next
  case (Cons e es)
  show ?case
  proof (cases "fst (selectFileForChunk (er_chunk_id e) st) \<and> Embeddings_add_ok (m_embeddings st) (er_embedding e)")
    case True
    let ?st1 = "exec (IndexAdd (er_chunk_id e) (er_embedding e)) st"
    from Cons.IH [of "acc @ [er_chunk_id e]" ?st1] obtain evs where
      "snd (handleEmbeddingsGenerated_loop es (acc @ [er_chunk_id e]) ?st1) = fold exec evs ?st1"
      "list_all (\<lambda>e. \<exists>l v. e = IndexAdd l v) evs"
      "fst (handleEmbeddingsGenerated_loop es (acc @ [er_chunk_id e]) ?st1) = (acc @ [er_chunk_id e]) @ index_adds evs"
      by blast
    then show ?thesis using True
      by (intro exI [of _ "IndexAdd (er_chunk_id e) (er_embedding e) # evs"])
         (simp add: Embeddings_add_def)
  next
    case False
    from Cons.IH [of acc st] obtain evs where
      "snd (handleEmbeddingsGenerated_loop es acc st) = fold exec evs st"
      "list_all (\<lambda>e. \<exists>l v. e = IndexAdd l v) evs"
      "fst (handleEmbeddingsGenerated_loop es acc st) = acc @ index_adds evs"
      by blast
    then show ?thesis using False
      by (intro exI [of _ evs]) (auto simp: Embeddings_add_def)
  qed
qed

lemma keys_IndexAdd:
  "set (map fst (e_entries (m_embeddings (exec (IndexAdd l v) s))))
     = insert l (set (map fst (e_entries (m_embeddings s))))"
  by (auto simp: exec_def)

lemma adds_phase:
  assumes "list_all (\<lambda>e. \<exists>l v. e = IndexAdd l v) A"
  shows "m_db (fold exec A s) = m_db s \<and> m_tx (fold exec A s) = m_tx s
         \<and> durable_index (fold exec A s) = durable_index s
         \<and> set (map fst (e_entries (m_embeddings (fold exec A s))))
             = set (map fst (e_entries (m_embeddings s))) \<union> set (index_adds A)
         \<and> (\<forall>x \<in> set (states_along A s).
               durable_db x = durable_db s \<and> durable_index x = durable_index s)"
  using assms
proof (induction A arbitrary: s)
  case Nil
  show ?case by simp
next
  case (Cons e A)
  then obtain l v where e: "e = IndexAdd l v" by auto
  have "list_all (\<lambda>e. \<exists>l v. e = IndexAdd l v) A" using Cons.prems by simp
  note IH = Cons.IH [OF this, of "exec e s"]
  have d: "m_db (exec e s) = m_db s" "m_tx (exec e s) = m_tx s"
    by (simp_all add: e exec_def)
  show ?case using IH d durable_IndexAdd [of l v s] keys_IndexAdd [of l v s]
    unfolding e by auto
qed

lemma updates_phase:
  assumes "m_tx s \<noteq> None"
  shows "m_tx (fold exec (map (\<lambda>i. DbWrite (UPDATE_CHUNK_HAS_EMBEDDING_SQL i)) ids) s) = m_tx s
         \<and> m_embeddings (fold exec (map (\<lambda>i. DbWrite (UPDATE_CHUNK_HAS_EMBEDDING_SQL i)) ids) s)
             = m_embeddings s
         \<and> tb_chunks (m_db (fold exec (map (\<lambda>i. DbWrite (UPDATE_CHUNK_HAS_EMBEDDING_SQL i)) ids) s))
             = map (\<lambda>c. if c_id c \<in> set ids then c\<lparr>c_has_embedding := True\<rparr> else c)
                   (tb_chunks (m_db s))
         \<and> (\<forall>x \<in> set (states_along (map (\<lambda>i. DbWrite (UPDATE_CHUNK_HAS_EMBEDDING_SQL i)) ids) s).
               durable_db x = durable_db s \<and> durable_index x = durable_index s)"
  using assms
proof (induction ids arbitrary: s)
  case Nil
  show ?case by simp
next
  case (Cons i ids)
  let ?s1 = "exec (DbWrite (UPDATE_CHUNK_HAS_EMBEDDING_SQL i)) s"
  have tx: "m_tx ?s1 \<noteq> None" using Cons.prems by (simp add: exec_def)
  note IH = Cons.IH [OF tx]
  have e: "m_embeddings ?s1 = m_embeddings s" by (simp add: exec_def)
  have c: "tb_chunks (m_db ?s1)
            = map (\<lambda>c. if c_id c = i then c\<lparr>c_has_embedding := True\<rparr> else c) (tb_chunks (m_db s))"
    by (simp add: exec_def)
  have m: "map (\<lambda>c. if c_id c \<in> set ids then c\<lparr>c_has_embedding := True\<rparr> else c)
             (map (\<lambda>c. if c_id c = i then c\<lparr>c_has_embedding := True\<rparr> else c) xs)
           = map (\<lambda>c. if c_id c \<in> set (i # ids) then c\<lparr>c_has_embedding := True\<rparr> else c) xs" for xs
    by (induction xs) auto
  show ?case
    using IH durable_update_in_tx(1) [OF Cons.prems, of "UPDATE_CHUNK_HAS_EMBEDDING_SQL i"]
      durable_update_in_tx(2,3) [of "UPDATE_CHUNK_HAS_EMBEDDING_SQL i" s] e c m
    by simp
qed

lemma ehv_mono:
  "embedded_have_vectors t idx \<Longrightarrow> set (map fst idx) \<subseteq> set (map fst idx')
   \<Longrightarrow> embedded_have_vectors t idx'"
  by (auto simp: embedded_have_vectors_def list_all_iff)

lemma ehv_flagged:
  assumes "embedded_have_vectors t idx" "set ids \<subseteq> set (map fst idx)"
      and "tb_chunks t' = map (\<lambda>c. if c_id c \<in> set ids then c\<lparr>c_has_embedding := True\<rparr> else c)
                             (tb_chunks t)"
  shows "embedded_have_vectors t' idx"
  using assms by (auto simp: embedded_have_vectors_def list_all_iff)

lemma fold_updates:
  "fold (\<lambda>chunk_id s. snd (updateChunkHasEmbedding chunk_id s)) ids s
     = fold exec (map (\<lambda>i. DbWrite (UPDATE_CHUNK_HAS_EMBEDDING_SQL i)) ids) s"
  by (induction ids arbitrary: s) (simp_all add: updateChunkHasEmbedding_def)

lemma flush_before_commit_iff:
  "flush_before_commit evs = (\<forall>i < length evs. evs ! i = TxCommit \<longrightarrow> IndexSave \<in> set (take i evs))"
  by (auto simp: flush_before_commit_def list_all_iff)

lemma flush_before_commit_adds:
  "list_all (\<lambda>e. \<exists>l v. e = IndexAdd l v) A \<Longrightarrow> flush_before_commit A"
  by (auto simp: flush_before_commit_iff list_all_length)

lemma flush_before_commit_batch:
  assumes "list_all (\<lambda>e. \<exists>l v. e = IndexAdd l v) A"
  shows "flush_before_commit
           (A @ [IndexSave, TxBegin] @ map (\<lambda>i. DbWrite (UPDATE_CHUNK_HAS_EMBEDDING_SQL i)) ids
              @ [TxCommit])"
  unfolding flush_before_commit_iff
proof (intro allI impI)
  fix i
  let ?evs = "A @ [IndexSave, TxBegin] @ map (\<lambda>i. DbWrite (UPDATE_CHUNK_HAS_EMBEDDING_SQL i)) ids
              @ [TxCommit]"
  assume i: "i < length ?evs" and c: "?evs ! i = TxCommit"
  have "length A < i"
  proof (rule ccontr)
    assume "\<not> length A < i"
    then consider "i < length A" | "i = length A" by linarith
    then show False
    proof cases
      case 1
      then have "?evs ! i = A ! i" by (simp add: nth_append)
      then show False using assms 1 c by (auto simp: list_all_length)
    next
      case 2
      then show False using c by (simp add: nth_append)
    qed
  qed
  then have "take i ?evs = A @ take (i - length A) ([IndexSave, TxBegin]
               @ map (\<lambda>i. DbWrite (UPDATE_CHUNK_HAS_EMBEDDING_SQL i)) ids @ [TxCommit])"
    by simp
  moreover obtain k where "i - length A = Suc k" using \<open>length A < i\<close>
    by (metis Suc_diff_Suc)
  ultimately show "IndexSave \<in> set (take i ?evs)" by simp
qed

text \<open>
  Claim C2: when a completed embedding batch is processed from a consistent state, the
  events of \<^verbatim>\<open>handleEmbeddingsGenerated\<close> are exactly what it does to the state; the index
  is saved before the transaction that sets \<^verbatim>\<open>has_embedding\<close> commits; in every state the
  handler passes through, also between the save and the commit, a crash leaves every chunk
  marked as embedded with its vector in the index file; and the state it ends in is
  consistent again.
\<close>

theorem embedding_flag_after_index_flush:
  assumes "consistent st"
  shows "handleEmbeddingsGenerated es st
           = fold exec (events_since st (handleEmbeddingsGenerated es st)) st
         \<and> flush_before_commit (events_since st (handleEmbeddingsGenerated es st))
         \<and> list_all recoverable (states_along (events_since st (handleEmbeddingsGenerated es st)) st)
         \<and> consistent (handleEmbeddingsGenerated es st)"
proof -
  from loop_events [of es "[]" st] obtain A where
    A: "snd (handleEmbeddingsGenerated_loop es [] st) = fold exec A st"
       "list_all (\<lambda>e. \<exists>l v. e = IndexAdd l v) A"
       "fst (handleEmbeddingsGenerated_loop es [] st) = index_adds A"
    by auto
  let ?sA = "fold exec A st"
  let ?ids = "index_adds A"
  let ?U = "map (\<lambda>i. DbWrite (UPDATE_CHUNK_HAS_EMBEDDING_SQL i)) ?ids"
  note ph = adds_phase [OF A(2), of st]
  have tx0: "m_tx st = None"
    and mem0: "embedded_have_vectors (m_db st) (e_entries (m_embeddings st))"
    and file0: "embedded_have_vectors (m_db st) (durable_index st)"
    using assms by (simp_all add: consistent_def)
  have dur0: "durable_db st = m_db st" using tx0 by (simp add: durable_db_def)
  have memA: "embedded_have_vectors (m_db st) (e_entries (m_embeddings ?sA))"
    using mem0 ph by (intro ehv_mono [OF mem0]) auto
  have recA: "\<forall>x \<in> set (states_along A st). recoverable x"
    using ph file0 dur0 by (simp add: recoverable_iff)
  show ?thesis
  proof (cases "?ids = []")
    case True
    then have h: "handleEmbeddingsGenerated es st = ?sA"
      by (simp add: handleEmbeddingsGenerated_def Let_def A)
    have "consistent ?sA"
      using ph tx0 memA file0 by (simp add: consistent_def)
    moreover have "events_since st (handleEmbeddingsGenerated es st) = A"
      unfolding h by (rule events_since_fold_exec)
    ultimately show ?thesis
      using recA flush_before_commit_adds [OF A(2)] h by (simp add: list_all_iff)
  next
    case False
    let ?s1 = "exec IndexSave ?sA"
    let ?s2 = "exec TxBegin ?s1"
    let ?sU = "fold exec ?U ?s2"
    let ?sF = "exec TxCommit ?sU"
    let ?evs = "A @ [IndexSave, TxBegin] @ ?U @ [TxCommit]"
    have h: "handleEmbeddingsGenerated es st = fold exec ?evs st"
      using False
      by (simp add: handleEmbeddingsGenerated_def Let_def A fold_updates commit_def
            transaction_def Embeddings_save_def)
    have s1: "m_db ?s1 = m_db st" "m_tx ?s1 = None"
             "durable_index ?s1 = e_entries (m_embeddings ?sA)"
             "e_entries (m_embeddings ?s1) = e_entries (m_embeddings ?sA)"
      using ph tx0 by (simp_all add: exec_def durable_index_def)
    have s2: "m_db ?s2 = m_db st" "m_tx ?s2 = Some (m_db st)"
             "durable_index ?s2 = e_entries (m_embeddings ?sA)"
             "e_entries (m_embeddings ?s2) = e_entries (m_embeddings ?sA)"
      using s1 by (simp_all add: exec_def durable_index_def)
    have tx2: "m_tx ?s2 \<noteq> None" using s2 by simp
    note up = updates_phase [OF tx2, of ?ids]
    have rec1: "recoverable ?s1"
      using s1 memA by (simp add: recoverable_iff durable_db_def)
    have rec2: "recoverable ?s2"
      using s2 memA by (simp add: recoverable_iff durable_db_def)
    have recU: "\<forall>x \<in> set (states_along ?U ?s2). recoverable x"
      using up rec2 by (simp add: recoverable_iff)
    have idsA: "set ?ids \<subseteq> set (map fst (e_entries (m_embeddings ?sA)))"
      using ph by auto
    have sF: "m_tx ?sF = None" "m_db ?sF = m_db ?sU"
             "e_entries (m_embeddings ?sF) = e_entries (m_embeddings ?sA)"
             "durable_index ?sF = e_entries (m_embeddings ?sA)"
      using up s2 by (simp_all add: exec_def durable_index_def)
    have chunksF: "tb_chunks (m_db ?sF)
                     = map (\<lambda>c. if c_id c \<in> set ?ids then c\<lparr>c_has_embedding := True\<rparr> else c)
                           (tb_chunks (m_db st))"
      using up s2 sF by simp
    have ehvF: "embedded_have_vectors (m_db ?sF) (e_entries (m_embeddings ?sA))"
      using memA idsA chunksF by (rule ehv_flagged)
    have consF: "consistent ?sF"
      using sF ehvF by (simp add: consistent_def)
    have recF: "recoverable ?sF"
      using sF ehvF by (simp add: recoverable_iff durable_db_def)
    have all: "\<forall>x \<in> set (states_along ?evs st). recoverable x"
      using recA rec1 rec2 recU recF last_in_states_along [of A st]
        last_in_states_along [of ?U ?s2]
      by (auto simp: set_states_along_append)
    have ev: "events_since st (handleEmbeddingsGenerated es st) = ?evs"
      unfolding h by (rule events_since_fold_exec)
    show ?thesis
      unfolding ev
    proof (intro conjI)
      show "handleEmbeddingsGenerated es st = fold exec ?evs st" by (rule h)
      show "flush_before_commit ?evs" by (rule flush_before_commit_batch [OF A(2)])
      show "list_all recoverable (states_along ?evs st)" using all by (simp only: list_all_iff)
      show "consistent (handleEmbeddingsGenerated es st)" unfolding h using consF by simp
    qed
  qed
qed

theorem embedding_flag_after_index_flush_witness:
  "consistent st_one_chunk
   \<and> events_since st_one_chunk
        (handleEmbeddingsGenerated [\<lparr>er_folder_id = 1, er_chunk_id = 1, er_embedding = [1, 0]\<rparr>]
           st_one_chunk)
       = [IndexAdd 1 [1, 0], IndexSave, TxBegin, DbWrite (UPDATE_CHUNK_HAS_EMBEDDING_SQL 1), TxCommit]
   \<and> flush_before_commit
        [IndexAdd 1 [1, 0], IndexSave, TxBegin, DbWrite (UPDATE_CHUNK_HAS_EMBEDDING_SQL 1), TxCommit]
   \<and> list_all recoverable
        (states_along
           [IndexAdd 1 [1, 0], IndexSave, TxBegin, DbWrite (UPDATE_CHUNK_HAS_EMBEDDING_SQL 1), TxCommit]
           st_one_chunk)
   \<and> consistent
        (handleEmbeddingsGenerated [\<lparr>er_folder_id = 1, er_chunk_id = 1, er_embedding = [1, 0]\<rparr>]
           st_one_chunk)"
proof -
  let ?es = "[\<lparr>er_folder_id = 1, er_chunk_id = 1, er_embedding = [1, 0]\<rparr>]"
  have c: "consistent st_one_chunk"
    by (simp add: consistent_def st_one_chunk_def embedded_have_vectors_def)
  have ev: "events_since st_one_chunk (handleEmbeddingsGenerated ?es st_one_chunk)
       = [IndexAdd 1 [1, 0], IndexSave, TxBegin, DbWrite (UPDATE_CHUNK_HAS_EMBEDDING_SQL 1), TxCommit]"
    by (simp add: events_since_def handleEmbeddingsGenerated_def st_one_chunk_def Let_def
          selectFileForChunk_def Embeddings_add_def Embeddings_add_ok_def Embeddings_save_def
          transaction_def commit_def updateChunkHasEmbedding_def exec_def)
  note t = embedding_flag_after_index_flush [OF c, of ?es, unfolded ev]
  show ?thesis using t c ev by blast
qed

section \<open>Retrieval\<close>

text \<open>
  \<^verbatim>\<open>SELECT_CHUNKS_SQL\<close> joins \<^verbatim>\<open>collections\<close> on \<^verbatim>\<open>collections.folder_id\<close>, a column of the
  first version of the schema; the table \<^verbatim>\<open>INIT_DB_SQL\<close> creates has no such column (the
  folders of a collection are in \<^verbatim>\<open>collection_items\<close>, as \<^verbatim>\<open>SELECT_COLLECTIONS_SQL_V2\<close>
  reads them), so the statement is never prepared.
\<close>

lemma SELECT_CHUNKS_SQL_not_prepared: "\<not> prepare INIT_DB_SQL SELECT_CHUNKS_SQL_columns"
  by (simp add: prepare_def INIT_DB_SQL_def SELECT_CHUNKS_SQL_columns_def)

text \<open>Whatever is asked, \<^verbatim>\<open>retrieveFromDB\<close> adds no result.\<close>

lemma retrieveFromDB_no_result:
  "retrieveFromDB result embeddings collections text retrievalSize results st = Inr results
   \<or> retrieveFromDB result embeddings collections text retrievalSize results st = Inl OutOfBounds"
  by (simp add: retrieveFromDB_def selectChunk_def SELECT_CHUNKS_SQL_not_prepared)

text \<open>
  Claim C3 says that retrieval returns the chunks among the nearest hits that belong to a
  requested collection: for collections \<open>[Work]\<close>, \<open>k = 5\<close> and hits 1, 2, 4, 3, 5, the
  three chunks of \<open>Work\<close>.  The code returns none, because \<^verbatim>\<open>selectChunk\<close> fails.
\<close>

theorem retrieval_returns_nothing:
  "retrieveFromDB [1, 0] [1, 2, 4, 3, 5] [''Work''] ''query'' 5 [] st_work_personal = Inr []"
  by (simp add: retrieveFromDB_def selectChunk_def SELECT_CHUNKS_SQL_not_prepared
        st_work_personal_def)

text \<open>
  Claim C10 says that retrieval is well defined when the search returns no chunk id.
  \<^verbatim>\<open>selectChunk\<close> reads \<^verbatim>\<open>chunk_ids[0]\<close> before anything else, which is out of bounds
  for the empty vector.
\<close>

theorem retrieval_empty_search_out_of_bounds:
  "retrieveFromDB [1, 0] [] [''Work''] ''query'' 5 [] st_work_personal = Inl OutOfBounds"
  by (simp add: retrieveFromDB_def selectChunk_def st_work_personal_def)

lemma selectChunk_empty: "selectChunk collection_names [] retrievalSize st = Inl OutOfBounds"
  by (simp add: selectChunk_def)

section \<open>Removing a folder from a collection\<close>

lemma exec_DbWrite_fields [simp]:
  "m_db (exec (DbWrite w) s) = apply_write w (m_db s)"
  "m_tx (exec (DbWrite w) s) = m_tx s"
  "m_embeddings (exec (DbWrite w) s) = m_embeddings s"
  "m_docsToScan (exec (DbWrite w) s) = m_docsToScan s"
  by (simp_all add: exec_def)

lemma removeFolderInternal_loop_result:
  "fst (removeFolderInternal_loop ids acc st)
   \<and> set (fst (snd (removeFolderInternal_loop ids acc st)))
       = set acc \<union> c_id ` {c \<in> set (tb_chunks (m_db st)). c_document_id c \<in> set ids}
   \<and> m_db (snd (snd (removeFolderInternal_loop ids acc st)))
       = (m_db st)\<lparr>tb_chunks := filter (\<lambda>c. c_document_id c \<notin> set ids) (tb_chunks (m_db st)),
                   tb_documents := filter (\<lambda>d. d_id d \<notin> set ids) (tb_documents (m_db st))\<rparr>
   \<and> m_tx (snd (snd (removeFolderInternal_loop ids acc st))) = m_tx st
   \<and> m_embeddings (snd (snd (removeFolderInternal_loop ids acc st))) = m_embeddings st"
proof (induction ids arbitrary: acc st)
  case Nil
  show ?case by simp
next
  case (Cons d ids)
  let ?acc1 = "acc @ map c_id (filter (\<lambda>c. c_document_id c = d) (tb_chunks (m_db st)))"
  let ?st1 = "exec (DbWrite (DELETE_DOCUMENTS_SQL d)) (exec (DbWrite (DELETE_CHUNKS_SQL d)) st)"
  have step: "removeFolderInternal_loop (d # ids) acc st = removeFolderInternal_loop ids ?acc1 ?st1"
    by (simp add: getChunksByDocumentId_def removeChunksByDocumentId_def removeDocument_def)
  note IH = Cons.IH [of ?acc1 ?st1]
  have db1: "m_db ?st1 = (m_db st)\<lparr>tb_chunks := filter (\<lambda>c. c_document_id c \<noteq> d) (tb_chunks (m_db st)),
                                    tb_documents := filter (\<lambda>x. d_id x \<noteq> d) (tb_documents (m_db st))\<rparr>"
    by simp
  show ?case
    unfolding step using IH unfolding db1
    by (auto simp: conj_commute)
qed

lemma fold_Embeddings_remove:
  "m_db (fold Embeddings_remove ids s) = m_db s
   \<and> m_tx (fold Embeddings_remove ids s) = m_tx s
   \<and> e_file (m_embeddings (fold Embeddings_remove ids s)) = e_file (m_embeddings s)
   \<and> e_entries (m_embeddings (fold Embeddings_remove ids s))
       = filter (\<lambda>p. fst p \<notin> set ids) (e_entries (m_embeddings s))"
proof (induction ids arbitrary: s)
  case Nil
  show ?case by simp
next
  case (Cons i ids)
  have "filter (\<lambda>p. fst p \<notin> set ids) (filter (\<lambda>p. fst p \<noteq> i) xs)
          = filter (\<lambda>p. fst p \<notin> set (i # ids)) xs" for xs :: "(int \<times> real list) list"
    by (induction xs) auto
  then show ?case using Cons.IH [of "Embeddings_remove i s"]
    by (simp add: Embeddings_remove_def exec_def)
qed

lemma applyRemovals_result:
  "m_db (applyRemovals ids s) = m_db s
   \<and> m_tx (applyRemovals ids s) = None
   \<and> e_entries (m_embeddings (applyRemovals ids s))
       = filter (\<lambda>p. fst p \<notin> set ids) (e_entries (m_embeddings s))
   \<and> (ids \<noteq> [] \<longrightarrow> e_file (m_embeddings (applyRemovals ids s))
                      = Some (filter (\<lambda>p. fst p \<notin> set ids) (e_entries (m_embeddings s))))
   \<and> (ids = [] \<longrightarrow> m_embeddings (applyRemovals ids s) = m_embeddings s)"
  using fold_Embeddings_remove [of ids s]
  by (simp add: applyRemovals_def Let_def commit_def Embeddings_save_def exec_def)

lemma removeCollectionFolder_result:
  assumes "filter (\<lambda>c. co_name c = collection) (tb_collections (m_db s)) = c # cs"
      and "(co_id c, folder_id) \<in> set (tb_collection_items (m_db s))"
  shows "fst (removeCollectionFolder collection folder_id s)
           = int (length (filter (\<lambda>ci. snd ci = folder_id)
                   (filter (\<lambda>ci. \<not> (fst ci = co_id c \<and> snd ci = folder_id))
                           (tb_collection_items (m_db s)))))
         \<and> snd (removeCollectionFolder collection folder_id s)
           = exec (DbWrite (DELETE_COLLECTION_FOLDER_SQL collection folder_id)) s
         \<and> tb_collection_items (m_db (exec (DbWrite (DELETE_COLLECTION_FOLDER_SQL collection folder_id)) s))
           = filter (\<lambda>ci. \<not> (fst ci = co_id c \<and> snd ci = folder_id)) (tb_collection_items (m_db s))"
proof -
  let ?items = "tb_collection_items (m_db s)"
  let ?items' = "filter (\<lambda>ci. \<not> (fst ci = co_id c \<and> snd ci = folder_id)) ?items"
  have "length ?items' < length ?items"
    using assms(2) by (intro length_filter_less [of "(co_id c, folder_id)"]) auto
  then have ne: "?items' \<noteq> ?items" by auto
  show ?thesis using assms(1) ne
    by (simp add: removeCollectionFolder_def Let_def)
qed

text \<open>
  Claim C5: \<^verbatim>\<open>removeFolder\<close> for a folder that is in the collection.  The association is
  deleted and the collections left without folder are pruned.  The folder row stays exactly
  when another association still refers to the folder, and then the documents, the chunks
  and the index are untouched; otherwise no document of the folder is left, the chunks of
  its documents are deleted, and none of them has an entry in the index, in memory or in
  the index file.
\<close>

theorem folder_removal:
  assumes tx: "m_tx st = None"
      and folder: "selectFolder path st = folder_id" "folder_id \<noteq> - 1"
      and coll: "filter (\<lambda>co. co_name co = collection) (tb_collections (m_db st)) = c # cs"
      and item: "(co_id c, folder_id) \<in> set (tb_collection_items (m_db st))"
      and st': "st' = removeFolder collection path st"
      and items': "items' = tb_collection_items (m_db st')"
      and docs: "docs = selectDocuments folder_id st"
  shows "items' = filter (\<lambda>ci. \<not> (fst ci = co_id c \<and> snd ci = folder_id))
                    (tb_collection_items (m_db st))
         \<and> tb_collections (m_db st')
             = filter (\<lambda>co. co_id co \<in> set (map fst items')) (tb_collections (m_db st))
         \<and> m_tx st' = None
         \<and> (folder_id \<in> set (map f_id (tb_folders (m_db st')))) = (folder_id \<in> set (map snd items'))
         \<and> (folder_id \<in> set (map snd items') \<longrightarrow>
               tb_folders (m_db st') = tb_folders (m_db st)
               \<and> tb_documents (m_db st') = tb_documents (m_db st)
               \<and> tb_chunks (m_db st') = tb_chunks (m_db st)
               \<and> m_embeddings st' = m_embeddings st)
         \<and> (folder_id \<notin> set (map snd items') \<longrightarrow>
               folder_id \<notin> set (map d_folder_id (tb_documents (m_db st')))
               \<and> tb_chunks (m_db st')
                   = filter (\<lambda>ch. c_document_id ch \<notin> set docs) (tb_chunks (m_db st))
               \<and> (\<forall>ch \<in> set (tb_chunks (m_db st)). c_document_id ch \<in> set docs \<longrightarrow>
                     c_id ch \<notin> set (map fst (e_entries (m_embeddings st')))
                     \<and> c_id ch \<notin> set (map fst (durable_index st'))))"
proof -
  let ?del = "DbWrite (DELETE_COLLECTION_FOLDER_SQL collection folder_id)"
  let ?st1 = "transaction st"
  let ?st2 = "exec ?del ?st1"
  let ?st3 = "exec (DbWrite PRUNE_COLLECTIONS_SQL) ?st2"
  let ?items = "tb_collection_items (m_db st)"
  let ?items2 = "filter (\<lambda>ci. \<not> (fst ci = co_id c \<and> snd ci = folder_id)) ?items"
  let ?n = "int (length (filter (\<lambda>ci. snd ci = folder_id) ?items2))"
  have st1: "m_db ?st1 = m_db st" "m_tx ?st1 = Some (m_db st)" "m_embeddings ?st1 = m_embeddings st"
    using tx by (simp_all add: transaction_def exec_def)
  have rc: "fst (removeCollectionFolder collection folder_id ?st1) = ?n"
           "snd (removeCollectionFolder collection folder_id ?st1) = ?st2"
           "tb_collection_items (m_db ?st2) = ?items2"
    using removeCollectionFolder_result [of collection ?st1 c cs folder_id] coll item st1
    by simp_all
  have db2: "m_db ?st2 = (m_db st)\<lparr>tb_collection_items := ?items2\<rparr>"
    using coll st1 by simp
  have db3: "m_db ?st3 = (m_db st)\<lparr>tb_collection_items := ?items2,
               tb_collections := filter (\<lambda>co. co_id co \<in> set (map fst ?items2)) (tb_collections (m_db st))\<rparr>"
    using db2 by simp
  have o3: "m_tx ?st3 = Some (m_db st)" "m_embeddings ?st3 = m_embeddings st"
    using st1 by simp_all
  have fid: "folder_id \<in> set (map f_id (tb_folders (m_db st)))"
    using folder by (auto simp: selectFolder_def split: list.splits)
       (metis filter_eq_ConsD image_eqI in_set_conv_decomp)
  have nz: "(?n \<noteq> 0) = (folder_id \<in> set (map snd ?items2))"
    by (auto simp: filter_empty_conv)
  have sel: "selectFolder path st \<noteq> - 1" using folder by simp
  show ?thesis
  proof (cases "?n \<noteq> 0")
    case True
    have ri: "removeFolderInternal collection folder_id path [] ?st1 = (True, [], ?st3)"
      using True rc by (simp add: removeFolderInternal_def Let_def sqlPruneCollections_def)
    have "st' = applyRemovals [] ?st3"
      using st' sel folder ri by (simp add: removeFolder_def Let_def)
    then have fin: "m_db st' = m_db ?st3" "m_tx st' = None" "m_embeddings st' = m_embeddings st"
      using applyRemovals_result [of "[]" ?st3] o3 by simp_all
    show ?thesis
      using True nz fid unfolding items' fin db3 by simp
  next
    case False
    then have n0: "?n = 0" by simp
    let ?st4 = "removeFolderFromDocumentQueue folder_id ?st3"
    have st4: "m_db ?st4 = m_db ?st3" "m_tx ?st4 = Some (m_db st)" "m_embeddings ?st4 = m_embeddings st"
      using o3 by (simp_all add: removeFolderFromDocumentQueue_def)
    have docs4: "selectDocuments folder_id ?st4 = docs"
      unfolding docs selectDocuments_def st4 db3 by simp
    let ?r = "removeFolderInternal_loop docs [] ?st4"
    note lp = removeFolderInternal_loop_result [of docs "[]" ?st4]
    let ?st5 = "exec (DbWrite (DELETE_FOLDERS_SQL folder_id)) (snd (snd ?r))"
    have ri: "removeFolderInternal collection folder_id path [] ?st1 = (True, fst (snd ?r), ?st5)"
      using n0 rc lp docs4
      by (simp add: removeFolderInternal_def Let_def sqlPruneCollections_def removeFolderFromDB_def)
    have fin0: "st' = applyRemovals (fst (snd ?r)) ?st5"
      using st' sel folder ri by (simp add: removeFolder_def Let_def)
    have db5: "m_db ?st5 = (m_db st)\<lparr>tb_collection_items := ?items2,
               tb_collections := filter (\<lambda>co. co_id co \<in> set (map fst ?items2)) (tb_collections (m_db st)),
               tb_chunks := filter (\<lambda>ch. c_document_id ch \<notin> set docs) (tb_chunks (m_db st)),
               tb_documents := filter (\<lambda>d. d_id d \<notin> set docs) (tb_documents (m_db st)),
               tb_folders := filter (\<lambda>f. f_id f \<noteq> folder_id) (tb_folders (m_db st))\<rparr>"
      using lp unfolding st4 db3 by simp
    have e5: "m_embeddings ?st5 = m_embeddings st"
      using lp st4 by simp
    have ids: "set (fst (snd ?r)) = c_id ` {ch \<in> set (tb_chunks (m_db st)). c_document_id ch \<in> set docs}"
      using lp unfolding st4 db3 by simp
    note ar = applyRemovals_result [of "fst (snd ?r)" ?st5]
    have fin: "m_db st' = m_db ?st5" "m_tx st' = None"
      using ar fin0 by simp_all
    have ent: "e_entries (m_embeddings st')
                 = filter (\<lambda>p. fst p \<notin> set (fst (snd ?r))) (e_entries (m_embeddings st))"
      using ar fin0 e5 by simp
    have fl: "fst (snd ?r) \<noteq> [] \<Longrightarrow> durable_index st'
                 = filter (\<lambda>p. fst p \<notin> set (fst (snd ?r))) (e_entries (m_embeddings st))"
      using ar fin0 e5 by (simp add: durable_index_def)
    have nodoc: "folder_id \<notin> set (map d_folder_id (filter (\<lambda>d. d_id d \<notin> set docs) (tb_documents (m_db st))))"
      unfolding docs selectDocuments_def by auto
    have vec: "\<forall>ch \<in> set (tb_chunks (m_db st)). c_document_id ch \<in> set docs \<longrightarrow>
                 c_id ch \<notin> set (map fst (e_entries (m_embeddings st')))
                 \<and> c_id ch \<notin> set (map fst (durable_index st'))"
    proof (intro ballI impI)
      fix ch assume ch: "ch \<in> set (tb_chunks (m_db st))" "c_document_id ch \<in> set docs"
      then have m: "c_id ch \<in> set (fst (snd ?r))" unfolding ids by auto
      then have "fst (snd ?r) \<noteq> []" by auto
      from fl [OF this] ent m
      show "c_id ch \<notin> set (map fst (e_entries (m_embeddings st')))
            \<and> c_id ch \<notin> set (map fst (durable_index st'))"
        by auto
    qed
    have nofolder: "folder_id \<notin> set (map f_id (filter (\<lambda>f. f_id f \<noteq> folder_id) (tb_folders (m_db st))))"
      by auto
    show ?thesis
      using False nz nodoc vec nofolder unfolding items' fin db5 by simp
  qed
qed

theorem folder_removal_witness:
  "m_tx st_work_personal = None
   \<and> selectFolder ''/personal'' st_work_personal = 2
   \<and> (2, 2) \<in> set (tb_collection_items (m_db st_work_personal))
   \<and> tb_collection_items (m_db (removeFolder ''Personal'' ''/personal'' st_work_personal)) = [(1, 1)]
   \<and> map co_name (tb_collections (m_db (removeFolder ''Personal'' ''/personal'' st_work_personal)))
       = [''Work'']
   \<and> 2 \<notin> set (map f_id (tb_folders (m_db (removeFolder ''Personal'' ''/personal'' st_work_personal))))
   \<and> 2 \<notin> set (map d_folder_id
                 (tb_documents (m_db (removeFolder ''Personal'' ''/personal'' st_work_personal))))
   \<and> map c_id (tb_chunks (m_db (removeFolder ''Personal'' ''/personal'' st_work_personal))) = [1, 2, 3]
   \<and> 4 \<notin> set (map fst (e_entries (m_embeddings
                 (removeFolder ''Personal'' ''/personal'' st_work_personal))))
   \<and> 5 \<notin> set (map fst (durable_index (removeFolder ''Personal'' ''/personal'' st_work_personal)))"
proof -
  let ?st' = "removeFolder ''Personal'' ''/personal'' st_work_personal"
  let ?c = "\<lparr>co_id = 2, co_name = ''Personal'', co_last_update_time = None,
             co_embedding_model = Some ''m''\<rparr>"
  have tx: "m_tx st_work_personal = None" by (simp add: st_work_personal_def)
  have f: "selectFolder ''/personal'' st_work_personal = 2"
    by (simp add: selectFolder_def st_work_personal_def)
  have n: "(2::int) \<noteq> - 1" by simp
  have co: "filter (\<lambda>co. co_name co = ''Personal'') (tb_collections (m_db st_work_personal)) = ?c # []"
    by (simp add: st_work_personal_def)
  have it: "(co_id ?c, 2) \<in> set (tb_collection_items (m_db st_work_personal))"
    by (simp add: st_work_personal_def)
  have d: "selectDocuments 2 st_work_personal = [2]"
    by (simp add: selectDocuments_def st_work_personal_def)
  note t = folder_removal [OF tx f n co it refl refl refl, unfolded d]
  have items: "tb_collection_items (m_db ?st') = [(1, 1)]"
    using t by (simp add: st_work_personal_def)
  have ch4: "chunk_of 4 2 ''p1'' \<in> set (tb_chunks (m_db st_work_personal))"
    and ch5: "chunk_of 5 2 ''p2'' \<in> set (tb_chunks (m_db st_work_personal))"
    by (simp_all add: st_work_personal_def)
  have zero: "2 \<notin> set (map snd (tb_collection_items (m_db ?st')))"
    unfolding items by simp
  from t zero have
    a: "2 \<notin> set (map f_id (tb_folders (m_db ?st')))" and
    b: "2 \<notin> set (map d_folder_id (tb_documents (m_db ?st')))" and
    c: "tb_chunks (m_db ?st') = filter (\<lambda>ch. c_document_id ch \<notin> set [2]) (tb_chunks (m_db st_work_personal))" and
    e: "\<forall>ch \<in> set (tb_chunks (m_db st_work_personal)). c_document_id ch \<in> set [2] \<longrightarrow>
                     c_id ch \<notin> set (map fst (e_entries (m_embeddings ?st')))
                     \<and> c_id ch \<notin> set (map fst (durable_index ?st'))" and
    p: "tb_collections (m_db ?st')
             = filter (\<lambda>co. co_id co \<in> set (map fst (tb_collection_items (m_db ?st'))))
                 (tb_collections (m_db st_work_personal))"
    by blast+
  have c': "map c_id (tb_chunks (m_db ?st')) = [1, 2, 3]"
    unfolding c by (simp add: st_work_personal_def chunk_of_def)
  have p': "map co_name (tb_collections (m_db ?st')) = [''Work'']"
    unfolding p items by (simp add: st_work_personal_def)
  have e4: "4 \<notin> set (map fst (e_entries (m_embeddings ?st')))"
    using e [rule_format, OF ch4] by (simp add: chunk_of_def)
  have e5: "5 \<notin> set (map fst (durable_index ?st'))"
    using e [rule_format, OF ch5] by (simp add: chunk_of_def)
  show ?thesis
    using tx f it items p' a b c' e4 e5 by simp
qed

section \<open>One time-boxed scan batch\<close>

lemma scan_step_refl [simp]: "scan_step st st"
  by (simp add: scan_step_def)

lemma scan_step_trans: "scan_step a b \<Longrightarrow> scan_step b c \<Longrightarrow> scan_step a c"
  by (auto simp: scan_step_def)

lemma scan_step_exec: "scan_event e \<Longrightarrow> scan_step a b \<Longrightarrow> scan_step a (exec e b)"
  by (auto simp: scan_step_def)

lemma scan_step_log: "m_log c = m_log b \<Longrightarrow> scan_step a b \<Longrightarrow> scan_step a c"
  by (simp add: scan_step_def)

lemma scan_step_sendChunkList: "scan_step a b \<Longrightarrow> scan_step a (sendChunkList b)"
  by (auto simp: scan_step_def sendChunkList_def)

lemma scan_step_appendChunk: "scan_step a b \<Longrightarrow> scan_step a (appendChunk c b)"
  by (auto simp: scan_step_def appendChunk_def sendChunkList_def Let_def)

lemma scan_step_flushChunk: "scan_step a b \<Longrightarrow> scan_step a (flushChunk m ws b)"
  unfolding flushChunk_def Let_def addChunk_def
  by (auto intro!: scan_step_appendChunk scan_step_exec)

lemma scan_step_fold_flushChunk: "scan_step a b \<Longrightarrow> scan_step a (fold (flushChunk m) cs b)"
  by (induction cs arbitrary: b) (simp_all add: scan_step_flushChunk)

lemma scan_step_chunkStream:
  "scan_step a b \<Longrightarrow>
   scan_step a (snd (chunkStream stream folder_id document_id file title author subject
                       keywords page maxChunks b))"
  by (simp add: chunkStream_factor scan_step_fold_flushChunk)

lemma scan_step_scheduleNext: "scan_step a b \<Longrightarrow> scan_step a (scheduleNext folder_id n b)"
  by (simp add: scheduleNext_def scan_step_sendChunkList)

lemma scan_step_enqueue: "scan_step a b \<Longrightarrow> scan_step a (enqueueDocumentInternal info p b)"
  by (simp add: enqueueDocumentInternal_def scan_step_def)

lemma scan_step_removeChunks: "scan_step a b \<Longrightarrow> scan_step a (snd (removeChunksByDocumentId d b))"
  by (simp add: removeChunksByDocumentId_def scan_step_exec)

lemma scan_step_updateDocument: "scan_step a b \<Longrightarrow> scan_step a (snd (updateDocument d t b))"
  by (simp add: updateDocument_def scan_step_exec)

lemma scan_step_addDocument: "scan_step a b \<Longrightarrow> scan_step a (snd (snd (addDocument f t p b)))"
  by (simp add: addDocument_def Let_def scan_step_exec)

lemma scan_step_document:
  "scan_step a b \<Longrightarrow>
   (case scanQueue_document f info c b of
      Inl r \<Rightarrow> scan_step a (snd r)
    | Inr r \<Rightarrow> scan_step a (snd (snd (snd r))))"
  by (simp add: scanQueue_document_def Let_def scan_step_removeChunks scan_step_updateDocument
        scan_step_addDocument)

lemma scan_step_pdf:
  "scan_step a b \<Longrightarrow> scan_step a (snd (scanQueue_pdf f info n d c b))"
  by (simp add: scanQueue_pdf_def Let_def scan_step_scheduleNext scan_step_enqueue
        scan_step_chunkStream split: option.splits)

lemma scan_step_text:
  "scan_step a b \<Longrightarrow> scan_step a (snd (scanQueue_text bs f info n d e c b))"
  by (simp add: scanQueue_text_def Let_def scan_step_scheduleNext scan_step_enqueue
        scan_step_chunkStream scan_step_removeChunks)

lemma scan_step_dequeue: "dequeueDocument b = Some (info, b') \<Longrightarrow> scan_step a b \<Longrightarrow> scan_step a b'"
  by (auto simp: dequeueDocument_def scan_step_def split: list.splits prod.splits)

lemma scan_step_scanQueue: "scan_step a b \<Longrightarrow> scan_step a (snd (scanQueue w c b))"
proof -
  assume ab: "scan_step a b"
  show ?thesis
  proof (cases "dequeueDocument b")
    case None
    then show ?thesis using ab by (simp add: scanQueue_def)
  next
    case (Some r)
    obtain info b' where r: "r = (info, b')" by (cases r)
    have ab': "scan_step a b'" using Some r ab scan_step_dequeue by blast
    show ?thesis
    proof (cases "w_files w (di_doc info)")
      case None
      then show ?thesis using Some r ab' by (simp add: scanQueue_def Let_def scan_step_scheduleNext)
    next
      case (Some f)
      note f = Some
      show ?thesis
      proof (cases "fl_readable f")
        case False
        then show ?thesis using \<open>dequeueDocument b = Some r\<close> r f ab'
          by (simp add: scanQueue_def Let_def scan_step_scheduleNext)
      next
        case True
        show ?thesis
        proof (cases "scanQueue_document f info c b'")
          case (Inl x)
          then have "scan_step a (snd x)" using scan_step_document [OF ab', of f info c] by simp
          then show ?thesis using \<open>dequeueDocument b = Some r\<close> r f True Inl
            by (simp add: scanQueue_def Let_def scan_step_scheduleNext)
        next
          case (Inr y)
          obtain d e c1 b1 where y: "y = (d, e, c1, b1)" by (cases y)
          have "scan_step a b1" using scan_step_document [OF ab', of f info c] Inr y by simp
          then show ?thesis using \<open>dequeueDocument b = Some r\<close> r f True Inr y
            by (simp add: scanQueue_def Let_def scan_step_pdf scan_step_text)
        qed
      qed
    qed
  qed
qed

lemma scan_step_loop: "scan_step a b \<Longrightarrow> scan_step a (snd (scanQueueBatch_loop w n c b))"
  by (induction n arbitrary: c b) (simp_all add: scan_step_scanQueue)

lemma log_applyRemovals:
  "m_log (applyRemovals ids s)
     = m_log s @ map IndexRemove ids @ [TxCommit] @ (if ids = [] then [] else [IndexSave])"
proof -
  have "m_log (fold Embeddings_remove ids s) = m_log s @ map IndexRemove ids"
    by (induction ids arbitrary: s) (simp_all add: Embeddings_remove_def)
  then show ?thesis
    by (simp add: applyRemovals_def Let_def commit_def Embeddings_save_def)
qed

text \<open>
  Claim C6, amended: in one batch the transaction is opened first; then come the writes of
  the documents (and the batches sent to the backend), all before the commit; then every
  removal accumulated during the batch is applied to the index in memory, still before the
  commit; then the transaction commits; and after the commit the index is saved, once, and
  only if at least one removal was accumulated.
\<close>

theorem scan_batch_order:
  "\<exists>ws. list_all scan_event ws
        \<and> events_since st (scanQueueBatch w n st)
            = [TxBegin] @ ws
              @ map IndexRemove (fst (scanQueueBatch_loop w n [] (transaction st)))
              @ [TxCommit]
              @ (if fst (scanQueueBatch_loop w n [] (transaction st)) = [] then [] else [IndexSave])"
proof -
  let ?st1 = "transaction st"
  let ?r = "scanQueueBatch_loop w n [] ?st1"
  have "scan_step ?st1 (snd ?r)" by (rule scan_step_loop) simp
  then obtain ws where ws: "m_log (snd ?r) = m_log ?st1 @ ws" "list_all scan_event ws"
    by (auto simp: scan_step_def)
  have "m_log (scanQueueBatch w n st)
          = m_log st @ [TxBegin] @ ws @ map IndexRemove (fst ?r) @ [TxCommit]
              @ (if fst ?r = [] then [] else [IndexSave])"
    using ws(1) by (simp add: scanQueueBatch_def Let_def log_applyRemovals transaction_def)
  then show ?thesis using ws(2) by (auto simp: events_since_def)
qed

section \<open>Scanning documents that have not changed\<close>

lemma send_step_refl [simp]: "send_step st st"
  by (simp add: send_step_def)

lemma send_step_trans: "send_step a b \<Longrightarrow> send_step b c \<Longrightarrow> send_step a c"
  by (auto simp: send_step_def)

lemma send_step_scheduleNext: "send_step b (scheduleNext folder_id n b)"
  by (simp add: send_step_def scheduleNext_def sendChunkList_def exec_def)

lemma selectDocument_db: "m_db st' = m_db st \<Longrightarrow> selectDocument p st' = selectDocument p st"
  by (simp add: selectDocument_def)

lemma unchanged_db:
  assumes "m_db st' = m_db st"
  shows "unchanged w st' = unchanged w st"
proof -
  have "selectDocument p st' = selectDocument p st" for p
    using assms by (rule selectDocument_db)
  then show ?thesis by (simp add: unchanged_def fun_eq_iff split: option.splits)
qed

lemma dequeue_unchanged:
  assumes "dequeueDocument b = Some (info, b')" "all_unchanged w b"
  shows "unchanged w b info \<and> all_unchanged w b' \<and> send_step b b'
         \<and> m_docsToScan b \<noteq> []"
proof -
  from assms(1) obtain k q rest where
    q: "m_docsToScan b = (k, info # q) # rest"
       "b' = b\<lparr>m_docsToScan := (if q = [] then rest else (k, q) # rest)\<rparr>"
    by (auto simp: dequeueDocument_def split: list.splits prod.splits)
  have db: "m_db b' = m_db b" using q by simp
  show ?thesis
    using assms(2) q unchanged_db [OF db, of w]
    by (auto simp: all_unchanged_def send_step_def)
qed

lemma scanQueue_unchanged:
  assumes "all_unchanged w b"
  shows "fst (scanQueue w c b) = c \<and> send_step b (snd (scanQueue w c b))
         \<and> all_unchanged w (snd (scanQueue w c b))"
proof (cases "dequeueDocument b")
  case None
  then show ?thesis using assms by (simp add: scanQueue_def)
next
  case (Some r)
  obtain info b' where r: "r = (info, b')" by (cases r)
  from dequeue_unchanged [OF Some [unfolded r] assms]
  have u: "unchanged w b info" and a: "all_unchanged w b'" and s: "send_step b b'" by simp_all
  from u obtain f where f: "w_files w (di_doc info) = Some f" "fl_readable f"
    "\<not> di_currentlyProcessing info"
    "fst (selectDocument (di_doc info) b) \<noteq> - 1"
    "snd (selectDocument (di_doc info) b) = fl_mtime f"
    by (auto simp: unchanged_def split: option.splits)
  have sel: "selectDocument (di_doc info) b' = selectDocument (di_doc info) b"
    using s by (simp add: selectDocument_def send_step_def)
  have doc: "scanQueue_document f info c b' = Inl (c, b')"
    using f sel by (simp add: scanQueue_document_def Let_def)
  let ?b2 = "scheduleNext (di_folder info) (countOfDocuments (di_folder info) b') b'"
  have sq: "scanQueue w c b = (c, ?b2)"
    using Some r f doc by (simp add: scanQueue_def Let_def)
  have s2: "send_step b' ?b2" by (rule send_step_scheduleNext)
  have q2: "m_docsToScan ?b2 = m_docsToScan b'"
    by (simp add: scheduleNext_def sendChunkList_def exec_def)
  have db2: "m_db ?b2 = m_db b'" using s2 by (simp add: send_step_def)
  have "all_unchanged w ?b2"
    using a unchanged_db [OF db2, of w] q2 by (simp add: all_unchanged_def)
  then show ?thesis using sq send_step_trans [OF s s2] by simp
qed

lemma loop_unchanged:
  assumes "all_unchanged w b"
  shows "fst (scanQueueBatch_loop w n c b) = c \<and> send_step b (snd (scanQueueBatch_loop w n c b))"
  using assms
proof (induction n arbitrary: b)
  case 0
  show ?case by simp
next
  case (Suc n)
  note sq = scanQueue_unchanged [OF Suc.prems, of c]
  from sq have e: "fst (scanQueue w c b) = c" by simp
  from Suc.IH [of "snd (scanQueue w c b)"] sq
  show ?case using send_step_trans [of b "snd (scanQueue w c b)"] by (auto simp: e)
qed

text \<open>
  Claim C7: a scan batch over a queue of unchanged documents leaves the tables as they are
  (no chunk row is inserted, deleted or rewritten) and the vector index as it is, in memory
  and on file; between the begin and the commit of its transaction it does nothing but
  hand pending chunks to the embedding backend.
\<close>

theorem rescan_unchanged:
  assumes "all_unchanged w st"
  shows "m_db (scanQueueBatch w n st) = m_db st
         \<and> m_embeddings (scanQueueBatch w n st) = m_embeddings st
         \<and> (\<exists>sends. list_all send_event sends
               \<and> events_since st (scanQueueBatch w n st) = [TxBegin] @ sends @ [TxCommit])"
proof -
  let ?st1 = "transaction st"
  have db1: "m_db ?st1 = m_db st" "m_embeddings ?st1 = m_embeddings st"
       "m_docsToScan ?st1 = m_docsToScan st" "m_log ?st1 = m_log st @ [TxBegin]"
    by (simp_all add: transaction_def exec_def split: option.splits)
  have "all_unchanged w ?st1"
    using assms unchanged_db [OF db1(1), of w] db1(3) by (simp add: all_unchanged_def)
  from loop_unchanged [OF this, of n "[]"]
  have r: "fst (scanQueueBatch_loop w n [] ?st1) = []"
    and s: "send_step ?st1 (snd (scanQueueBatch_loop w n [] ?st1))" by simp_all
  let ?s2 = "snd (scanQueueBatch_loop w n [] ?st1)"
  from s obtain sends where sends: "m_log ?s2 = m_log ?st1 @ sends" "list_all send_event sends"
    and db2: "m_db ?s2 = m_db ?st1" "m_embeddings ?s2 = m_embeddings ?st1"
    by (auto simp: send_step_def)
  have fin: "scanQueueBatch w n st = commit ?s2"
    using r by (simp add: scanQueueBatch_def Let_def applyRemovals_def)
  have "m_log (scanQueueBatch w n st) = m_log st @ [TxBegin] @ sends @ [TxCommit]"
    unfolding fin using sends(1) db1(4) by (simp add: commit_def)
  then have "events_since st (scanQueueBatch w n st) = [TxBegin] @ sends @ [TxCommit]"
    by (simp add: events_since_def)
  moreover have "m_db (scanQueueBatch w n st) = m_db st"
    "m_embeddings (scanQueueBatch w n st) = m_embeddings st"
    unfolding fin using db2 db1 by (simp_all add: commit_def exec_def)
  ultimately show ?thesis using sends(2) by blast
qed

text \<open>
  Claim C6 as the spec states it has the removals from the vector index applied only after
  the transaction commits.  \<^verbatim>\<open>scanQueueBatch\<close> calls \<^verbatim>\<open>m_embeddings->remove\<close> for every
  accumulated id and then \<^verbatim>\<open>commit()\<close>: a batch that rescans a modified document removes
  the vector of its old chunk before the commit.
\<close>

theorem removal_before_commit_counterexample:
  "\<not> removals_after_commit
       (events_since st_indexed (scanQueueBatch (world_with (text_file 9 ''ab'')) 5 st_indexed))"
proof -
  have "events_since st_indexed (scanQueueBatch (world_with (text_file 9 ''ab'')) 5 st_indexed)
   = [TxBegin, DbWrite (DELETE_CHUNKS_SQL 1), DbWrite (UPDATE_DOCUMENT_TIME_SQL 9 1),
      DbWrite (INSERT_CHUNK_SQL 1 ''ab'' ''b.txt'' [] [] [] [] (- 1) (- 1) (- 1) 1),
      GenerateAsyncEmbeddings [\<lparr>ec_folder_id = 1, ec_chunk_id = 2, ec_chunk = ''ab''\<rparr>],
      IndexRemove 1, TxCommit, IndexSave]"
    by code_simp
  then show ?thesis by simp
qed

theorem scan_batch_order_witness:
  "\<exists>ws. list_all scan_event ws
        \<and> events_since st_indexed (scanQueueBatch (world_with (text_file 9 ''ab'')) 5 st_indexed)
            = [TxBegin] @ ws @ map IndexRemove [1] @ [TxCommit] @ [IndexSave]"
proof -
  have r: "fst (scanQueueBatch_loop (world_with (text_file 9 ''ab'')) 5 [] (transaction st_indexed))
             = [1]"
    by code_simp
  from scan_batch_order [of st_indexed "world_with (text_file 9 ''ab'')" 5]
  show ?thesis unfolding r by simp
qed

theorem rescan_unchanged_witness:
  "all_unchanged (world_with (text_file 7 ''ab'')) st_indexed
   \<and> m_db (scanQueueBatch (world_with (text_file 7 ''ab'')) 5 st_indexed) = m_db st_indexed
   \<and> m_embeddings (scanQueueBatch (world_with (text_file 7 ''ab'')) 5 st_indexed)
       = m_embeddings st_indexed
   \<and> events_since st_indexed (scanQueueBatch (world_with (text_file 7 ''ab'')) 5 st_indexed)
       = [TxBegin, TxCommit]"
proof -
  have u: "all_unchanged (world_with (text_file 7 ''ab'')) st_indexed"
    by (simp add: all_unchanged_def unchanged_def world_with_def text_file_def st_indexed_def
          queued_def selectDocument_def)
  have e: "events_since st_indexed (scanQueueBatch (world_with (text_file 7 ''ab'')) 5 st_indexed)
       = [TxBegin, TxCommit]"
    by code_simp
  from rescan_unchanged [OF u, of 5] u e show ?thesis by simp
qed

section \<open>Binary content\<close>

text \<open>
  \<^verbatim>\<open>checkData\<close> fails a read with a byte in \<open>0x00\<close>-\<open>0x06\<close>, \<open>0x0E\<close>-\<open>0x1A\<close> or
  \<open>0x1C\<close>-\<open>0x1F\<close> and sets \<^verbatim>\<open>m_binarySeen\<close>, which a read error of the file does not.
\<close>

lemma control_byte_ranges:
  "control_byte ch
     = ((of_char ch :: nat) \<le> 0x06 \<or> (0x0E \<le> (of_char ch :: nat) \<and> (of_char ch :: nat) \<le> 0x1A)
        \<or> (0x1C \<le> (of_char ch :: nat) \<and> (of_char ch :: nat) \<le> 0x1F))"
  by (auto simp: control_byte_def Let_def)

lemma checkData_binary:
  assumes "sz \<noteq> - 1" "i < nat sz" "i < length data" "control_byte (data ! i)"
  shows "checkData seen data sz = (True, - 1)"
proof -
  have "data ! i \<in> set (take (nat sz) data)"
    using assms(2,3) by (metis length_take min_less_iff_conj nth_mem nth_take)
  then have "list_ex control_byte (take (nat sz) data)"
    using assms(4) by (auto simp: list_ex_iff)
  then show ?thesis using assms(1) by (simp add: checkData_def)
qed

lemma checkData_read_error: "checkData False data (- 1) = (False, - 1)"
  by (simp add: checkData_def)

lemma checkData_clean:
  "\<not> list_ex control_byte (take (nat sz) data) \<Longrightarrow> checkData False data sz = (False, sz)"
  by (simp add: checkData_def)

lemma m_db_scheduleNext [simp]: "m_db (scheduleNext folder_id n st) = m_db st"
  by (simp add: scheduleNext_def sendChunkList_def exec_def)

text \<open>
  When the document had its row before the scan, the purge takes every chunk of the
  document, those of this call included.
\<close>

lemma binary_purges_known_document:
  assumes "fl_openable f"
      and "fst (chunkStream (fst (openStream bs f (di_currentPosition info))) (di_folder info)
                  document_id (fl_name f) [] [] [] [] (- 1) 100 st) = - 1"
      and "snd (openStream bs f (di_currentPosition info))"
  shows "list_all (\<lambda>c. c_document_id c \<noteq> document_id)
           (tb_chunks (m_db (snd (scanQueue_text bs f info n document_id document_id cs st))))"
  using assms
  by (simp add: scanQueue_text_def Let_def removeChunksByDocumentId_def list_all_iff)

text \<open>
  For a document that is new, \<open>existing_id\<close> is still \<open>- 1\<close> when the binary content is
  met, and the purge, which is done with \<open>existing_id\<close>, takes nothing.
\<close>

lemma binary_does_not_purge_new_document:
  assumes "fl_openable f"
      and "fst (chunkStream (fst (openStream bs f (di_currentPosition info))) (di_folder info)
                  document_id (fl_name f) [] [] [] [] (- 1) 100 st) = - 1"
      and "snd (openStream bs f (di_currentPosition info))"
      and "list_all (\<lambda>c. c_document_id c \<noteq> - 1)
             (tb_chunks (m_db (snd (chunkStream (fst (openStream bs f (di_currentPosition info)))
                  (di_folder info) document_id (fl_name f) [] [] [] [] (- 1) 100 st))))"
  shows "fst (scanQueue_text bs f info n document_id (- 1) cs st) = cs
         \<and> tb_chunks (m_db (snd (scanQueue_text bs f info n document_id (- 1) cs st)))
             = tb_chunks (m_db (snd (chunkStream (fst (openStream bs f (di_currentPosition info)))
                  (di_folder info) document_id (fl_name f) [] [] [] [] (- 1) 100 st)))"
proof -
  let ?st1 = "snd (chunkStream (fst (openStream bs f (di_currentPosition info)))
                  (di_folder info) document_id (fl_name f) [] [] [] [] (- 1) 100 st)"
  have "filter (\<lambda>c. c_document_id c \<noteq> - 1) (tb_chunks (m_db ?st1)) = tb_chunks (m_db ?st1)"
    using assms(4) by (simp add: list_all_iff)
  moreover have "filter (\<lambda>c. c_document_id c = - 1) (tb_chunks (m_db ?st1)) = []"
    using assms(4) by (auto simp: list_all_iff filter_empty_conv)
  ultimately show ?thesis using assms(1,2,3)
    by (simp add: scanQueue_text_def Let_def removeChunksByDocumentId_def
          getChunksByDocumentId_def)
qed

text \<open>
  Claim C4 says that a document in which binary content is met ends without chunks.  A new
  text file whose first blocks are clean and whose later block holds the byte \<open>0x01\<close>
  keeps the chunks flushed before the failing read (and they have been handed on for
  embedding); the document is recorded with its time and leaves the queue, so it is not
  scanned again.
\<close>

theorem binary_file_keeps_chunks:
  "map c_chunk_text
     (tb_chunks (m_db (scanQueueBatch
                         (world_with (text_file 7 (''ab cd '' @ [CHR 0x01] @ ''ef''))) 5 st_new)))
     = [''ab'', ''cd'']
   \<and> map d_document_time
       (tb_documents (m_db (scanQueueBatch
                         (world_with (text_file 7 (''ab cd '' @ [CHR 0x01] @ ''ef''))) 5 st_new)))
     = [7]
   \<and> m_docsToScan (scanQueueBatch
                     (world_with (text_file 7 (''ab cd '' @ [CHR 0x01] @ ''ef''))) 5 st_new) = []"
  by code_simp

section \<open>The size of the batches in a scan batch\<close>

lemma batch_invariant_fields:
  "m_chunkList b' = m_chunkList b \<Longrightarrow> m_log b' = m_log b \<Longrightarrow> batch_invariant b
   \<Longrightarrow> batch_invariant b'"
  by (simp add: batch_invariant_def)

lemma batch_invariant_DbWrite: "batch_invariant b \<Longrightarrow> batch_invariant (exec (DbWrite w) b)"
  by (rule batch_invariant_exec) simp_all

lemma batch_invariant_other:
  assumes "batch_invariant b"
  shows "batch_invariant (exec TxBegin b)" "batch_invariant (exec TxCommit b)"
        "batch_invariant (exec IndexSave b)" "batch_invariant (exec (IndexRemove l) b)"
  using assms by (auto intro: batch_invariant_exec)

lemma batch_invariant_enqueue:
  "batch_invariant b \<Longrightarrow> batch_invariant (enqueueDocumentInternal info p b)"
  by (simp add: enqueueDocumentInternal_def batch_invariant_def)

lemma batch_invariant_document:
  "batch_invariant b \<Longrightarrow>
   (case scanQueue_document f info c b of
      Inl r \<Rightarrow> batch_invariant (snd r)
    | Inr r \<Rightarrow> batch_invariant (snd (snd (snd r))))"
  by (simp add: scanQueue_document_def Let_def removeChunksByDocumentId_def updateDocument_def
        addDocument_def batch_invariant_DbWrite)

lemma batch_invariant_pdf:
  "batch_invariant b \<Longrightarrow> batch_invariant (snd (scanQueue_pdf f info n d c b))"
  by (simp add: scanQueue_pdf_def Let_def batch_invariant_scheduleNext batch_invariant_enqueue
        batch_invariant_chunkStream split: option.splits)

lemma batch_invariant_text:
  "batch_invariant b \<Longrightarrow> batch_invariant (snd (scanQueue_text bs f info n d e c b))"
  by (simp add: scanQueue_text_def Let_def batch_invariant_scheduleNext batch_invariant_enqueue
        batch_invariant_chunkStream removeChunksByDocumentId_def batch_invariant_DbWrite)

lemma batch_invariant_dequeue:
  "dequeueDocument b = Some (info, b') \<Longrightarrow> batch_invariant b \<Longrightarrow> batch_invariant b'"
  by (auto simp: dequeueDocument_def batch_invariant_def split: list.splits prod.splits)

lemma batch_invariant_scanQueue:
  assumes "batch_invariant b"
  shows "batch_invariant (snd (scanQueue w c b))"
proof (cases "dequeueDocument b")
  case None
  then show ?thesis using assms by (simp add: scanQueue_def)
next
  case (Some r)
  obtain info b' where r: "r = (info, b')" by (cases r)
  have b': "batch_invariant b'" using Some r assms batch_invariant_dequeue by blast
  show ?thesis
  proof (cases "w_files w (di_doc info)")
    case None
    then show ?thesis using Some r b'
      by (simp add: scanQueue_def Let_def batch_invariant_scheduleNext)
  next
    case f: (Some f)
    show ?thesis
    proof (cases "fl_readable f")
      case False
      then show ?thesis using Some r f b'
        by (simp add: scanQueue_def Let_def batch_invariant_scheduleNext)
    next
      case True
      show ?thesis
      proof (cases "scanQueue_document f info c b'")
        case (Inl x)
        then have "batch_invariant (snd x)"
          using batch_invariant_document [OF b', of f info c] by simp
        then show ?thesis using Some r f True Inl
          by (simp add: scanQueue_def Let_def batch_invariant_scheduleNext)
      next
        case (Inr y)
        obtain d e c1 b1 where y: "y = (d, e, c1, b1)" by (cases y)
        have "batch_invariant b1"
          using batch_invariant_document [OF b', of f info c] Inr y by simp
        then show ?thesis using Some r f True Inr y
          by (simp add: scanQueue_def Let_def batch_invariant_pdf batch_invariant_text)
      qed
    qed
  qed
qed

lemma batch_invariant_scan_loop:
  "batch_invariant b \<Longrightarrow> batch_invariant (snd (scanQueueBatch_loop w n c b))"
  by (induction n arbitrary: c b) (simp_all add: batch_invariant_scanQueue)

lemma batch_invariant_applyRemovals:
  "batch_invariant b \<Longrightarrow> batch_invariant (applyRemovals ids b)"
proof -
  assume b: "batch_invariant b"
  have "batch_invariant (fold Embeddings_remove ids b)"
    using b by (induction ids arbitrary: b)
               (simp_all add: Embeddings_remove_def batch_invariant_other)
  then show ?thesis
    by (cases "ids = []")
       (simp_all add: applyRemovals_def Let_def commit_def Embeddings_save_def
          batch_invariant_other)
qed

lemma batch_invariant_scanQueueBatch:
  "batch_invariant st \<Longrightarrow> batch_invariant (scanQueueBatch w n st)"
  by (simp add: scanQueueBatch_def Let_def batch_invariant_applyRemovals
        batch_invariant_scan_loop transaction_def batch_invariant_other)

text \<open>
  Claim C9: every batch submitted to the embedding backend has at most 100 chunks.  The
  batches are submitted by \<^verbatim>\<open>appendChunk\<close> (when the pending list reaches the batch size),
  by \<^verbatim>\<open>scheduleNext\<close> (the pending rest) and by \<^verbatim>\<open>scheduleUncompletedEmbeddings\<close> (slices
  of the batch size), also through \<^verbatim>\<open>chunkStream\<close> and a whole scan batch; each of them
  keeps the invariant, under which every batch in the log has at most 100 chunks.
\<close>

theorem batches_at_most_batchSize:
  assumes "batch_invariant st"
      and "st' = appendChunk chunk st
           \<or> st' = scheduleNext folder_id countForFolder st
           \<or> st' = scheduleUncompletedEmbeddings folder_id st
           \<or> st' = snd (chunkStream stream folder_id document_id file title author subject
                          keywords page maxChunks st)
           \<or> st' = scanQueueBatch w n st"
      and "GenerateAsyncEmbeddings batch \<in> set (m_log st')"
  shows "length batch \<le> 100 \<and> batch_invariant st'"
proof -
  have "batch_invariant st'"
    using assms(2)
    by (elim disjE)
       (simp_all add: assms(1) batch_invariant_appendChunk batch_invariant_scheduleNext
          batch_invariant_scheduleUncompletedEmbeddings batch_invariant_chunkStream
          batch_invariant_scanQueueBatch)
  then show ?thesis using assms(3) batch_invariant_batches by blast
qed

theorem batches_at_most_batchSize_witness:
  "batch_invariant st99
   \<and> GenerateAsyncEmbeddings (m_chunkList st99 @ [\<lparr>ec_folder_id = 1, ec_chunk_id = 1, ec_chunk = ''a''\<rparr>])
       \<in> set (m_log (appendChunk \<lparr>ec_folder_id = 1, ec_chunk_id = 1, ec_chunk = ''a''\<rparr> st99))
   \<and> length (m_chunkList st99 @ [\<lparr>ec_folder_id = 1, ec_chunk_id = 1, ec_chunk = ''a''\<rparr>]) = 100
   \<and> batch_invariant (appendChunk \<lparr>ec_folder_id = 1, ec_chunk_id = 1, ec_chunk = ''a''\<rparr> st99)"
proof -
  let ?c = "\<lparr>ec_folder_id = 1, ec_chunk_id = 1, ec_chunk = ''a''\<rparr>"
  have inv: "batch_invariant st99"
    by (simp add: batch_invariant_def st99_def s_batchSize_def)
  have mem: "GenerateAsyncEmbeddings (m_chunkList st99 @ [?c]) \<in> set (m_log (appendChunk ?c st99))"
    by (simp add: appendChunk_def sendChunkList_def st99_def s_batchSize_def Let_def)
  have len: "length (m_chunkList st99 @ [?c]) = 100"
    by (simp add: st99_def)
  from batches_at_most_batchSize [OF inv _ mem, of ?c] inv mem len show ?thesis by simp
qed

section \<open>The stream of a file without control bytes\<close>

text \<open>
  For a file that can be read and holds no control byte, the stream that the scan sets up
  is the string stream of the file's data at the stored position, and the binary flag stays
  unset, whatever the size of the device's blocks.
\<close>

lemma readData_clean:
  assumes "fl_readError f = None" "\<not> list_ex control_byte (fl_data f)"
  shows "readData f False pos bs
           = (False, take bs (drop pos (fl_data f)), int (length (take bs (drop pos (fl_data f)))))"
proof -
  define block where "block = take bs (drop pos (fl_data f))"
  have "set block \<subseteq> set (fl_data f)"
    unfolding block_def by (meson set_drop_subset set_take_subset subset_trans)
  then have "\<not> list_ex control_byte block"
    using assms(2) by (auto simp: list_ex_iff)
  then have "checkData False block (int (length block)) = (False, int (length block))"
    by (simp add: checkData_def)
  moreover have "QFile_readData f pos bs = (block, int (length block))"
    using assms(1) by (simp add: QFile_readData_def block_def)
  ultimately show ?thesis
    by (simp add: readData_def Let_def block_def)
qed

lemma take_drop_block:
  "take bs (drop pos d) @ drop (pos + length (take bs (drop pos d))) d = drop pos d"
proof -
  have a: "drop (pos + n) d = drop n (drop pos d)" for n
    by (simp add: add.commute)
  have b: "take bs X @ drop (length (take bs X)) X = X" for X :: "'a list"
    by (cases "bs \<le> length X") (simp_all add: min_def)
  show ?thesis unfolding a by (rule b)
qed

lemma deliver_clean:
  assumes "fl_readError f = None" "\<not> list_ex control_byte (fl_data f)" "0 < bs" "\<not> seen"
  shows "deliver bs f seen pos = (drop pos (fl_data f), False, False)"
  using assms
proof (induction bs f seen pos rule: deliver.induct)
  case (1 bs f seen pos)
  let ?d = "fl_data f"
  have s: "seen = False" using "1.prems"(4) by simp
  note rd = readData_clean [OF "1.prems"(1,2), of pos bs]
  show ?case
  proof (cases "take bs (drop pos ?d) = []")
    case True
    then have "drop pos ?d = []" using "1.prems"(3) by (cases "drop pos ?d") auto
    then show ?thesis using rd s by (subst deliver.simps) simp
  next
    case False
    have a: "\<not> snd (snd (readData f seen pos bs)) < 0" using rd s by simp
    have b: "snd (snd (readData f seen pos bs)) \<noteq> 0" using rd s False by simp
    have c: "\<not> fst (readData f seen pos bs)" using rd s by simp
    have n: "pos + nat (snd (snd (readData f seen pos bs))) = pos + length (take bs (drop pos ?d))"
      using rd s by simp
    have IH: "deliver bs f (fst (readData f seen pos bs))
                (pos + nat (snd (snd (readData f seen pos bs))))
              = (drop (pos + length (take bs (drop pos ?d))) ?d, False, False)"
      using "1.IH"(1) [OF a b "1.prems"(1,2,3) c] n by simp
    have "take bs (drop pos ?d) @ drop (pos + length (take bs (drop pos ?d))) ?d = drop pos ?d"
      by (rule take_drop_block)
    then show ?thesis
      using a b IH rd s by (subst deliver.simps) simp
  qed
qed

lemma openStream_clean:
  assumes "fl_readError f = None" "\<not> list_ex control_byte (fl_data f)" "0 < bs"
  shows "openStream bs f p = (stringStream (fl_data f) p, False)"
proof -
  have "fst (readData f False 0 bs) = False"
    using readData_clean [OF assms(1,2), of 0 bs] by simp
  then show ?thesis
    using deliver_clean [OF assms, of False p] deliver_clean [OF assms, of False 0]
    by (simp add: openStream_def stringStream_def Let_def)
qed

end
